theory Spec2Isabelle
  imports Complex_Main "HOL-Library.AList"
begin

section \<open>Python primitives used by the k-mer engine\<close>

text \<open>
  Strings are character lists. A Python slice \<open>s[i:j]\<close> first adds \<open>len(s)\<close> to a
  negative bound, then clamps both bounds into \<open>0..len(s)\<close>, and is empty when the
  lower bound is not below the upper one. \<open>range(n)\<close> is empty for \<open>n \<le> 0\<close>.
\<close>

definition clamp_index :: "int \<Rightarrow> int \<Rightarrow> nat" where
  "clamp_index n i = nat (if i < 0 then max 0 (i + n) else min i n)"

definition py_slice :: "'a list \<Rightarrow> int \<Rightarrow> int \<Rightarrow> 'a list" where
  "py_slice s i j =
     (let n = int (length s); lo = clamp_index n i; hi = clamp_index n j
      in take (hi - lo) (drop lo s))"

definition py_range :: "int \<Rightarrow> int list" where
  "py_range n = [0..n - 1]"

section \<open>K-mer extraction\<close>

text \<open>
  \<open>BloomFilterHandler.extract_kmers\<close> and \<open>SequenceMatcher._extract_kmers\<close> are the same
  list comprehension
  \<^verbatim>\<open>[sequence[i:i + k] for i in range(len(sequence) - k + 1)]\<close>;
  the first reads \<open>self.kmer_size\<close>, the second \<open>self.bloom_filter_handler.kmer_size\<close>.
  Both are written over the k-mer size here and applied to the handler's field below.
\<close>

definition extract_kmers :: "int \<Rightarrow> string \<Rightarrow> string list" where
  "extract_kmers k sequence =
     map (\<lambda>i. py_slice sequence i (i + k)) (py_range (int (length sequence) - k + 1))"

definition sm_extract_kmers :: "int \<Rightarrow> string \<Rightarrow> string list" where
  "sm_extract_kmers k sequence =
     map (\<lambda>i. py_slice sequence i (i + k)) (py_range (int (length sequence) - k + 1))"

subsection \<open>Strings, sets and default dictionaries\<close>

text \<open>
  \<open>str.strip\<close> and \<open>str.split\<close> without arguments work on the characters for which
  \<open>str.isspace\<close> holds. A character here is a code point below 256; among these the
  whitespace of a Python \<open>str\<close> is tab, line feed, vertical tab, form feed, carriage
  return, the four separators 0x1C to 0x1F, the space, next line (0x85) and the no-break
  space (0xA0). Text with code points from 256 on is outside what is represented.
\<close>

definition is_space :: "char \<Rightarrow> bool" where
  "is_space c = (c \<in> set [CHR 0x09, CHR 0x0A, CHR 0x0B, CHR 0x0C, CHR 0x0D,
                            CHR 0x1C, CHR 0x1D, CHR 0x1E, CHR 0x1F, CHR 0x20,
                            CHR 0x85, CHR 0xA0])"

definition strip :: "string \<Rightarrow> string" where
  "strip s = rev (dropWhile is_space (rev (dropWhile is_space s)))"

definition startswith :: "string \<Rightarrow> string \<Rightarrow> bool" where
  "startswith s p = (take (length p) s = p)"

definition endswith :: "string \<Rightarrow> string \<Rightarrow> bool" where
  "endswith s p = (length p \<le> length s \<and> drop (length s - length p) s = p)"

fun split_acc :: "string \<Rightarrow> string \<Rightarrow> string list" where
  "split_acc cur [] = (if cur = [] then [] else [rev cur])"
| "split_acc cur (c # cs) =
     (if is_space c then (if cur = [] then split_acc [] cs else rev cur # split_acc [] cs)
      else split_acc (c # cur) cs)"

definition py_split :: "string \<Rightarrow> string list" where
  "py_split s = split_acc [] s"

text \<open>
  A Python \<open>set\<close> is kept as a list without repetitions. The order in which Python
  iterates over a set is not specified; the list fixes one order, and the statements below
  that concern emitted rows do not depend on which.
\<close>

definition py_set :: "'a list \<Rightarrow> 'a list" where
  "py_set xs = remdups xs"

definition set_add :: "'a \<Rightarrow> 'a list \<Rightarrow> 'a list" where
  "set_add x xs = (if x \<in> set xs then xs else xs @ [x])"

definition set_inter :: "'a list \<Rightarrow> 'a list \<Rightarrow> 'a list" where
  "set_inter xs ys = filter (\<lambda>x. x \<in> set ys) xs"

definition set_union :: "'a list \<Rightarrow> 'a list \<Rightarrow> 'a list" where
  "set_union xs ys = xs @ filter (\<lambda>y. y \<notin> set xs) ys"

text \<open>
  A \<open>dict\<close> is an association list in insertion order. Reading \<open>d[k]\<close> from a
  \<open>defaultdict(set)\<close> returns the stored set, and for a missing key stores the empty set
  under \<open>k\<close> and returns it: the dictionary is part of the result.
\<close>

type_synonym set_dict = "(string \<times> string list) list"

definition dd_getitem :: "set_dict \<Rightarrow> string \<Rightarrow> string list \<times> set_dict" where
  "dd_getitem d k = (case map_of d k of Some v \<Rightarrow> (v, d) | None \<Rightarrow> ([], d @ [(k, [])]))"

text \<open>\<open>d[k].add(x)\<close> on a \<open>defaultdict(set)\<close>.\<close>

definition dd_add :: "string \<Rightarrow> string \<Rightarrow> set_dict \<Rightarrow> set_dict" where
  "dd_add k x d = (case dd_getitem d k of (v, d') \<Rightarrow> AList.update k (set_add x v) d')"

datatype error =
  ValueError | IndexError | AttributeError | TypeError | FileNotFoundError | OSError

subsection \<open>Float division and fixed-point formatting\<close>

text \<open>
  \<open>a / b\<close> on two \<open>int\<close>s is the IEEE double nearest to the exact quotient (ties to the
  even significand), and \<open>f"{x:.4f}"\<close> prints the decimal with four fractional digits
  nearest to the exact value of the double (ties to even). A double is kept as a pair
  \<open>(m, e)\<close> that stands for \<open>m * 2 ^ e\<close>. The matcher divides only by a positive length
  that is at least the numerator, so the quotient lies in \<open>[0, 1]\<close>: division by zero and
  overflow do not arise there, and \<open>py_truediv\<close> is written for that range.
\<close>

type_synonym py_float = "int \<times> int"

definition round_half_even_div :: "int \<Rightarrow> int \<Rightarrow> int" where
  "round_half_even_div a b =
     (let q = a div b; r = a mod b
      in if 2 * r < b then q else if b < 2 * r then q + 1 else if even q then q else q + 1)"

fun bitlen :: "nat \<Rightarrow> nat" where
  "bitlen n = (if n = 0 then 0 else Suc (bitlen (n div 2)))"

declare bitlen.simps [simp del]

text \<open>The exponent \<open>e\<close> with \<open>2 ^ e \<le> a / b < 2 ^ (e + 1)\<close>, for positive \<open>a\<close> and \<open>b\<close>.\<close>

definition floor_log2 :: "nat \<Rightarrow> nat \<Rightarrow> int" where
  "floor_log2 a b =
     (let d = int (bitlen a) - int (bitlen b)
      in if 0 \<le> d then (if int b * 2 ^ nat d \<le> int a then d else d - 1)
         else (if int b \<le> int a * 2 ^ nat (- d) then d else d - 1))"

definition py_truediv :: "nat \<Rightarrow> nat \<Rightarrow> py_float" where
  "py_truediv a b =
     (if a = 0 then (0, 0)
      else let u = max (floor_log2 a b) (- 1022) - 52
           in if 0 \<le> u then (round_half_even_div (int a) (int b * 2 ^ nat u), u)
              else (round_half_even_div (int a * 2 ^ nat (- u)) (int b), u))"

fun digits :: "nat \<Rightarrow> string" where
  "digits n = (if n < 10 then [''0123456789'' ! n]
               else digits (n div 10) @ [''0123456789'' ! (n mod 10)])"

declare digits.simps [simp del]

definition format_4f :: "py_float \<Rightarrow> string" where
  "format_4f x =
     (case x of (m, e) \<Rightarrow>
        let n = nat (if 0 \<le> e then m * 2 ^ nat e * 10000
                     else round_half_even_div (m * 10000) (2 ^ nat (- e)));
            frac = digits (n mod 10000)
        in digits (n div 10000) @ ''.'' @ replicate (4 - length frac) (CHR ''0'') @ frac)"

section \<open>The probabilistic membership set\<close>

text \<open>
  \<open>pybloom_live.BloomFilter\<close> is a library outside the repository. It is a bit array
  with a family of hash functions: \<open>add\<close> refuses with \<open>IndexError\<close> once more than
  \<open>capacity\<close> elements were counted, otherwise sets the bits of the key and counts the key
  when one of them was clear; \<open>in\<close> tests that all bits of the key are set. The hash
  family (which depends on capacity and error rate) is a parameter: \<open>make_hashes b key\<close>
  lists the bit positions of \<open>key\<close>. The constructor refuses a capacity that is not
  positive with \<open>ValueError\<close>.
\<close>

record bloom_filter =
  capacity :: int
  count :: int
  bitarray :: "nat set"
  make_hashes :: "string \<Rightarrow> nat list"

definition bloom_new :: "(string \<Rightarrow> nat list) \<Rightarrow> int \<Rightarrow> error + bloom_filter" where
  "bloom_new hs cap =
     (if 0 < cap then Inr \<lparr>capacity = cap, count = 0, bitarray = {}, make_hashes = hs\<rparr>
      else Inl ValueError)"

definition bloom_contains :: "bloom_filter \<Rightarrow> string \<Rightarrow> bool" where
  "bloom_contains b key = list_all (\<lambda>p. p \<in> bitarray b) (make_hashes b key)"

definition bloom_add :: "bloom_filter \<Rightarrow> string \<Rightarrow> error + bloom_filter" where
  "bloom_add b key =
     (if capacity b < count b then Inl IndexError
      else let hashes = make_hashes b key;
               found_all_bits = list_all (\<lambda>p. p \<in> bitarray b) hashes;
               b' = b\<lparr>bitarray := bitarray b \<union> set hashes\<rparr>
           in Inr (if found_all_bits then b' else b'\<lparr>count := count b + 1\<rparr>))"

section \<open>The index builder\<close>

text \<open>
  The fields of \<open>BloomFilterHandler\<close>. \<open>kmer_to_reference\<close> is a \<open>defaultdict(set)\<close>,
  \<open>reference_kmer_count\<close> a \<open>defaultdict(int)\<close> that is only read with \<open>get\<close> and
  updated with \<open>+=\<close>; \<open>reference_sequences\<close> is never written.
\<close>

record handler =
  kmer_size :: int
  factor :: int
  bloom :: "bloom_filter option"
  kmer_to_reference :: set_dict
  reference_kmer_count :: "string \<rightharpoonup> int"
  reference_gca_map :: "string \<rightharpoonup> string"
  reference_sequences :: "string \<rightharpoonup> string"

definition handler_init :: "int \<Rightarrow> int \<Rightarrow> handler" where
  "handler_init k f =
     \<lparr>kmer_size = k, factor = f, bloom = None, kmer_to_reference = [],
      reference_kmer_count = Map.empty, reference_gca_map = Map.empty,
      reference_sequences = Map.empty\<rparr>"

text \<open>
  A file is the list of the lines that iterating over it yields, and the exception that
  ends the iteration, if any (a truncated gzip stream, undecodable bytes); a file that
  cannot be opened yields no line and ends with the exception of \<open>open\<close>. A database
  directory is the list of its files in the order of \<open>os.walk\<close>, each with its full
  path.
\<close>

type_synonym file_lines = "string list \<times> error option"

type_synonym database = "(string \<times> file_lines) list"

definition count_kmers_in_sequence :: "handler \<Rightarrow> string \<Rightarrow> int" where
  "count_kmers_in_sequence h sequence =
     (if kmer_size h \<le> int (length sequence) then int (length sequence) - kmer_size h + 1
      else 0)"

definition estimate_step :: "handler \<Rightarrow> string \<Rightarrow> int \<times> string \<Rightarrow> int \<times> string" where
  "estimate_step h raw st =
     (case st of (kmer_count, sequence) \<Rightarrow>
        let line = strip raw
        in if line = [] then (kmer_count, sequence)
           else if startswith line ''>''
           then (kmer_count + count_kmers_in_sequence h sequence, [])
           else (kmer_count, sequence @ line))"

text \<open>
  \<open>estimate_kmers\<close> catches every exception of the read and returns the count it has
  then: the sequence accumulated since the last header is counted only after the last
  line was read.
\<close>

definition estimate_kmers :: "handler \<Rightarrow> file_lines \<Rightarrow> int" where
  "estimate_kmers h f =
     (case f of
        (lines, failure) \<Rightarrow>
          (case fold (estimate_step h) lines (0, []) of
             (kmer_count, sequence) \<Rightarrow>
               (case failure of
                  None \<Rightarrow> kmer_count + count_kmers_in_sequence h sequence
                | Some e \<Rightarrow> kmer_count)))"

definition estimate_ext :: "string \<Rightarrow> bool" where
  "estimate_ext file_path = (endswith file_path ''.fna'' \<or> endswith file_path ''.fna.gz'')"

definition build_ext :: "string \<Rightarrow> bool" where
  "build_ext file_path =
     (endswith file_path ''.fna'' \<or> endswith file_path ''.fna.gz'' \<or>
      endswith file_path ''.fasta'' \<or> endswith file_path ''.fasta.gz'')"

definition estimate_total_kmers_in_db :: "handler \<Rightarrow> database \<Rightarrow> int" where
  "estimate_total_kmers_in_db h db =
     sum_list (map (\<lambda>pf. estimate_kmers h (snd pf)) (filter (\<lambda>pf. estimate_ext (fst pf)) db))"

definition initialize_bloom_filter ::
  "(string \<Rightarrow> nat list) \<Rightarrow> handler \<Rightarrow> int \<Rightarrow> error + handler" where
  "initialize_bloom_filter hs h cap =
     (case bloom_new hs cap of Inl e \<Rightarrow> Inl e | Inr b \<Rightarrow> Inr (h\<lparr>bloom := Some b\<rparr>))"

text \<open>
  The pattern \<open>GCA_\d+\.\d+\<close>, searched from the left; the digit runs are greedy, and
  since a digit is never a dot no shorter run can match where the longest does not.
  Digits are the ASCII ones.
\<close>

definition is_digit :: "char \<Rightarrow> bool" where
  "is_digit c = (c \<in> set ''0123456789'')"

definition match_gca :: "string \<Rightarrow> string option" where
  "match_gca s =
     (if take 4 s = ''GCA_'' then
        let d1 = takeWhile is_digit (drop 4 s); r = drop (4 + length d1) s;
            d2 = takeWhile is_digit (drop 1 r)
        in if d1 \<noteq> [] \<and> take 1 r = ''.'' \<and> d2 \<noteq> [] then Some (''GCA_'' @ d1 @ ''.'' @ d2)
           else None
      else None)"

fun search_gca :: "string \<Rightarrow> string option" where
  "search_gca [] = None"
| "search_gca (c # cs) =
     (case match_gca (c # cs) of Some m \<Rightarrow> Some m | None \<Rightarrow> search_gca cs)"

definition extract_gca_from_filename :: "string \<Rightarrow> string" where
  "extract_gca_from_filename file_path =
     (case search_gca file_path of Some m \<Rightarrow> m | None \<Rightarrow> ''Unknown'')"

text \<open>
  \<open>_extract_reference_name\<close> returns the name together with the warnings it prints.
  For a line that starts with the marker, \<open>split()\<close> has a first token.
\<close>

definition extract_reference_name :: "string \<Rightarrow> string \<times> string list" where
  "extract_reference_name header_line =
     (if startswith header_line ''>''
      then (case py_split header_line of t # ts \<Rightarrow> (drop 1 t, []) | [] \<Rightarrow> ([], []))
      else (''Unknown'', [''Warning: Header line format is incorrect: '' @ header_line]))"

text \<open>
  The loop of \<open>_add_kmers_to_bloom\<close>. An exception leaves the handler as the insertions
  before it made it; the handler is therefore returned beside the error.
\<close>

fun add_kmers_loop :: "handler \<Rightarrow> string \<Rightarrow> string list \<Rightarrow> handler \<times> error option" where
  "add_kmers_loop h reference_name [] = (h, None)"
| "add_kmers_loop h reference_name (kmer # kmers) =
     (case bloom h of
        None \<Rightarrow> (h, Some AttributeError)
      | Some b \<Rightarrow>
          (case bloom_add b kmer of
             Inl e \<Rightarrow> (h, Some e)
           | Inr b' \<Rightarrow>
               add_kmers_loop
                 (h\<lparr>bloom := Some b',
                    kmer_to_reference := dd_add kmer reference_name (kmer_to_reference h)\<rparr>)
                 reference_name kmers))"

definition add_kmers_to_bloom :: "handler \<Rightarrow> string \<Rightarrow> string \<Rightarrow> handler \<times> (error + int)" where
  "add_kmers_to_bloom h sequence reference_name =
     (let kmers = extract_kmers (kmer_size h) sequence
      in case add_kmers_loop h reference_name kmers of
           (h', Some e) \<Rightarrow> (h', Inl e)
         | (h', None) \<Rightarrow>
             (h'\<lparr>reference_kmer_count := (reference_kmer_count h')
                   (reference_name \<mapsto>
                      (case reference_kmer_count h' reference_name of None \<Rightarrow> 0 | Some c \<Rightarrow> c)
                      + int (length kmers))\<rparr>,
              Inr (int (length kmers))))"

text \<open>The local variables of \<open>_process_file_kmers\<close>, with the handler and the warnings printed.\<close>

record pstate =
  ps_handler :: handler
  actual_kmer_count :: int
  current_reference :: "string option"
  sequence_data :: "string list"
  warnings :: "string list"

text \<open>
  \<open>if current_reference and sequence_data\<close>: a reference that is \<open>None\<close> or the empty
  string is false, and so is an empty list of lines.
\<close>

definition has_record :: "pstate \<Rightarrow> bool" where
  "has_record st =
     ((case current_reference st of None \<Rightarrow> False | Some r \<Rightarrow> r \<noteq> []) \<and> sequence_data st \<noteq> [])"

definition ingest_record :: "pstate \<Rightarrow> pstate \<times> error option" where
  "ingest_record st =
     (case add_kmers_to_bloom (ps_handler st) (concat (sequence_data st))
             (the (current_reference st)) of
        (h', Inl e) \<Rightarrow> (st\<lparr>ps_handler := h'\<rparr>, Some e)
      | (h', Inr n) \<Rightarrow>
          (st\<lparr>ps_handler := h', actual_kmer_count := actual_kmer_count st + n\<rparr>, None))"

definition start_record :: "string \<Rightarrow> string \<Rightarrow> pstate \<Rightarrow> pstate" where
  "start_record gca_name line st =
     (case extract_reference_name line of
        (name, w) \<Rightarrow>
          st\<lparr>current_reference := Some name,
             ps_handler := (ps_handler st)
                \<lparr>reference_gca_map := (reference_gca_map (ps_handler st))(name \<mapsto> gca_name)\<rparr>,
             warnings := warnings st @ w\<rparr>)"

fun process_lines :: "string \<Rightarrow> string list \<Rightarrow> pstate \<Rightarrow> pstate \<times> error option" where
  "process_lines gca_name [] st = (st, None)"
| "process_lines gca_name (raw # rest) st =
     (let line = strip raw
      in if startswith line ''>'' then
           (if has_record st then
              (case ingest_record st of
                 (st', Some e) \<Rightarrow> (st', Some e)
               | (st', None) \<Rightarrow>
                   process_lines gca_name rest
                     (start_record gca_name line (st'\<lparr>sequence_data := []\<rparr>)))
            else process_lines gca_name rest (start_record gca_name line st))
         else process_lines gca_name rest (st\<lparr>sequence_data := sequence_data st @ [line]\<rparr>))"

text \<open>
  \<open>_process_file_kmers\<close>: the handler after the call, the warnings printed, and the
  returned count or the exception raised. Nothing is caught here: an exception of the read
  leaves the function after the lines before it were processed, and the record that was
  being accumulated is not ingested.
\<close>

definition process_file_kmers ::
  "handler \<Rightarrow> string \<Rightarrow> file_lines \<Rightarrow> handler \<times> string list \<times> (error + int)" where
  "process_file_kmers h file_path f =
     (case f of
        (lines, failure) \<Rightarrow>
          (case process_lines (extract_gca_from_filename file_path) lines
                  \<lparr>ps_handler = h, actual_kmer_count = 0, current_reference = None,
                   sequence_data = [], warnings = []\<rparr> of
             (st, Some e) \<Rightarrow> (ps_handler st, warnings st, Inl e)
           | (st, None) \<Rightarrow>
               (case failure of
                  Some e \<Rightarrow> (ps_handler st, warnings st, Inl e)
                | None \<Rightarrow>
                    (if has_record st then
                       (case ingest_record st of
                          (st', Some e) \<Rightarrow> (ps_handler st', warnings st', Inl e)
                        | (st', None) \<Rightarrow>
                            (ps_handler st', warnings st', Inr (actual_kmer_count st')))
                     else (ps_handler st, warnings st, Inr (actual_kmer_count st))))))"

text \<open>
  The worker pool of \<open>load_database_multithreaded\<close>. The tasks are run one after the
  other in submission order; interleavings of the threads are not represented. The pool
  keeps each task's result or exception in its future, and the source waits for the futures
  without reading them: the list of these outcomes is returned here to speak about them.
\<close>

fun run_tasks ::
  "handler \<Rightarrow> database \<Rightarrow> handler \<times> string list \<times> (error + int) list" where
  "run_tasks h [] = (h, [], [])"
| "run_tasks h (pf # rest) =
     (case process_file_kmers h (fst pf) (snd pf) of
        (h1, w1, r1) \<Rightarrow>
          (case run_tasks h1 rest of (h2, w2, rs) \<Rightarrow> (h2, w1 @ w2, r1 # rs)))"

definition load_database_multithreaded ::
  "(string \<Rightarrow> nat list) \<Rightarrow> handler \<Rightarrow> database \<Rightarrow>
     handler \<times> string list \<times> (error + (error + int) list)" where
  "load_database_multithreaded hs h db =
     (let estimated_kmers = estimate_total_kmers_in_db h db
      in if 0 < estimated_kmers then
           (case initialize_bloom_filter hs h (estimated_kmers * factor h) of
              Inl e \<Rightarrow> (h, [], Inl e)
            | Inr h1 \<Rightarrow>
                (case run_tasks h1 (filter (\<lambda>pf. build_ext (fst pf)) db) of
                   (h2, w, rs) \<Rightarrow> (h2, w, Inr rs)))
         else (h, [], Inl ValueError))"

text \<open>The k-mers a finished task reports as loaded; a task that raised reports none.\<close>

definition loaded_kmers :: "(error + int) list \<Rightarrow> int" where
  "loaded_kmers rs = sum_list (map (\<lambda>r. case r of Inl e \<Rightarrow> 0 | Inr n \<Rightarrow> n) rs)"

definition get_reference_kmers :: "handler \<Rightarrow> string \<Rightarrow> string list" where
  "get_reference_kmers h reference_name =
     map fst (filter (\<lambda>kr. reference_name \<in> set (snd kr)) (kmer_to_reference h))"

section \<open>Persistence\<close>

text \<open>
  The dictionary \<open>data_to_save\<close> that \<open>save_bloom_filter\<close> pickles. \<open>pickle.load\<close> is
  taken to return the value that \<open>pickle.dump\<close> wrote; the file system maps the path of
  each pickle file to that value. Directories are not represented: one with a non-empty
  name exists or can be created, and the file in it can be written. For the empty name
  \<open>os.path.exists\<close> is false and \<open>os.makedirs\<close> raises \<open>FileNotFoundError\<close>.
\<close>

record saved_index =
  s_bloom :: "bloom_filter option"
  s_kmer_to_reference :: set_dict
  s_reference_kmer_count :: "string \<rightharpoonup> int"
  s_reference_gca_map :: "string \<rightharpoonup> string"
  s_reference_sequences :: "string \<rightharpoonup> string"

type_synonym filesystem = "string \<rightharpoonup> saved_index"

definition path_join :: "string \<Rightarrow> string \<Rightarrow> string" where
  "path_join d f = (if d = [] \<or> last d = CHR ''/'' then d @ f else d @ ''/'' @ f)"

definition save_bloom_filter :: "handler \<Rightarrow> filesystem \<Rightarrow> string \<Rightarrow> error + filesystem" where
  "save_bloom_filter h fs directory =
     (if directory = [] then Inl FileNotFoundError
      else Inr (fs(path_join directory ''bloom_filter.pkl'' \<mapsto>
                  \<lparr>s_bloom = bloom h, s_kmer_to_reference = kmer_to_reference h,
                   s_reference_kmer_count = reference_kmer_count h,
                   s_reference_gca_map = reference_gca_map h,
                   s_reference_sequences = reference_sequences h\<rparr>)))"

definition load_bloom_filter :: "handler \<Rightarrow> filesystem \<Rightarrow> string \<Rightarrow> error + handler" where
  "load_bloom_filter h fs file_path =
     (case fs file_path of
        None \<Rightarrow> Inl FileNotFoundError
      | Some data_loaded \<Rightarrow>
          Inr (h\<lparr>bloom := s_bloom data_loaded,
                 kmer_to_reference := s_kmer_to_reference data_loaded,
                 reference_kmer_count := s_reference_kmer_count data_loaded,
                 reference_gca_map := s_reference_gca_map data_loaded,
                 reference_sequences := s_reference_sequences data_loaded\<rparr>))"

section \<open>The sequence matcher\<close>

record row =
  sequence_name :: string
  total_input_kmers :: nat
  reference :: string
  matched_kmers :: nat
  reference_total_kmers :: int
  gca_name :: string
  jacc :: string
  qcov :: string

fun read_fasta_loop ::
  "string option \<Rightarrow> string list \<Rightarrow> string list \<Rightarrow> (string \<times> string) list" where
  "read_fasta_loop name acc [] =
     (case name of None \<Rightarrow> [] | Some n \<Rightarrow> [(n, concat acc)])"
| "read_fasta_loop name acc (raw # rest) =
     (let line = strip raw
      in if startswith line ''>''
         then (case name of None \<Rightarrow> [] | Some n \<Rightarrow> [(n, concat acc)])
              @ read_fasta_loop (Some (drop 1 line)) [] rest
         else read_fasta_loop name (acc @ [line]) rest)"

definition read_fasta_file :: "string list \<Rightarrow> (string \<times> string) list" where
  "read_fasta_file lines = read_fasta_loop None [] lines"

text \<open>
  The first loop of \<open>_match_sequence\<close>. \<open>kmer in bloom\<close> raises \<open>TypeError\<close> when no
  filter was built or loaded. The lookup \<open>kmer_to_reference[kmer]\<close> is a read of a
  \<open>defaultdict\<close>, so the handler is part of the result.
\<close>

fun match_kmers ::
  "handler \<Rightarrow> set_dict \<Rightarrow> string list \<Rightarrow> handler \<times> (error + set_dict)" where
  "match_kmers h reference_kmer_matches [] = (h, Inr reference_kmer_matches)"
| "match_kmers h reference_kmer_matches (kmer # kmers) =
     (case bloom h of
        None \<Rightarrow> (h, Inl TypeError)
      | Some b \<Rightarrow>
          if bloom_contains b kmer then
            (case dd_getitem (kmer_to_reference h) kmer of
               (refs, d) \<Rightarrow>
                 match_kmers (h\<lparr>kmer_to_reference := d\<rparr>)
                   (fold (\<lambda>ref m. dd_add ref kmer m) refs reference_kmer_matches) kmers)
          else match_kmers h reference_kmer_matches kmers)"

definition score_row :: "handler \<Rightarrow> string \<Rightarrow> string list \<Rightarrow> string \<times> string list \<Rightarrow> row" where
  "score_row h name input_kmers rm =
     (case rm of (ref, matched) \<Rightarrow>
        let reference_kmers_set = py_set (get_reference_kmers h ref);
            scored = 0 < length input_kmers \<and> 0 < length reference_kmers_set;
            common = length (set_inter input_kmers reference_kmers_set)
        in \<lparr>sequence_name = name,
            total_input_kmers = length input_kmers,
            reference = ref,
            matched_kmers = length matched,
            reference_total_kmers =
              (case reference_kmer_count h ref of None \<Rightarrow> 0 | Some c \<Rightarrow> c),
            gca_name = (case reference_gca_map h ref of None \<Rightarrow> ''Unknown'' | Some g \<Rightarrow> g),
            jacc = format_4f
              (if scored
               then py_truediv common (length (set_union input_kmers reference_kmers_set))
               else (0, 0)),
            qcov = format_4f
              (if scored then py_truediv common (length reference_kmers_set) else (0, 0))\<rparr>)"

definition match_sequence :: "handler \<Rightarrow> string \<Rightarrow> string \<Rightarrow> handler \<times> (error + row list)" where
  "match_sequence h name sequence_data' =
     (let input_kmers = py_set (sm_extract_kmers (kmer_size h) sequence_data')
      in case match_kmers h [] input_kmers of
           (h', Inl e) \<Rightarrow> (h', Inl e)
         | (h', Inr reference_kmer_matches) \<Rightarrow>
             (h', Inr (map (score_row h' name input_kmers) reference_kmer_matches)))"

text \<open>
  \<open>match_sequences\<close> on the lines of the query file: the handler afterwards, the rows
  written below the header row, and the exception that ended the run, if any.
\<close>

fun match_records ::
  "handler \<Rightarrow> (string \<times> string) list \<Rightarrow> handler \<times> row list \<times> error option" where
  "match_records h [] = (h, [], None)"
| "match_records h (q # qs) =
     (case match_sequence h (fst q) (snd q) of
        (h', Inl e) \<Rightarrow> (h', [], Some e)
      | (h', Inr rows) \<Rightarrow>
          (case match_records h' qs of (h'', rows', r) \<Rightarrow> (h'', rows @ rows', r)))"

definition match_sequences :: "handler \<Rightarrow> string list \<Rightarrow> handler \<times> row list \<times> error option" where
  "match_sequences h query_lines = match_records h (read_fasta_file query_lines)"

section \<open>Invariants and relations used in the proofs\<close>

definition dd_view :: "set_dict \<Rightarrow> string \<Rightarrow> string list" where
  "dd_view d k = (case map_of d k of None \<Rightarrow> [] | Some v \<Rightarrow> v)"

definition empties :: "set_dict \<Rightarrow> bool" where
  "empties e = (\<forall>kv \<in> set e. snd kv = [])"

definition catalog_in_bloom :: "handler \<Rightarrow> bool" where
  "catalog_in_bloom h =
     (\<forall>kmer \<in> fst ` set (kmer_to_reference h). \<exists>b. bloom h = Some b \<and> bloom_contains b kmer)"

text \<open>The invariant of a dictionary-backed index.\<close>

definition index_inv :: "handler \<Rightarrow> bool" where
  "index_inv h = (distinct (map fst (kmer_to_reference h)) \<and> catalog_in_bloom h)"

definition same_index :: "set_dict \<Rightarrow> handler \<Rightarrow> handler \<Rightarrow> bool" where
  "same_index d h1 h2 =
     (kmer_size h1 = kmer_size h2 \<and>
      reference_kmer_count h1 = reference_kmer_count h2 \<and>
      reference_gca_map h1 = reference_gca_map h2 \<and>
      (\<exists>e1 e2. kmer_to_reference h1 = d @ e1 \<and> kmer_to_reference h2 = d @ e2 \<and>
                empties e1 \<and> empties e2) \<and>
      (bloom h1 = None \<and> bloom h2 = None \<or>
       (\<exists>b1 b2. bloom h1 = Some b1 \<and> bloom h2 = Some b2 \<and>
          (\<forall>k \<in> fst ` set d. bloom_contains b1 k = bloom_contains b2 k))))"

text \<open>
  A header line names its record when the name that \<open>_extract_reference_name\<close> takes from
  it is not empty. A file is well formed when reading it raises nothing, its first line is
  a header line, and every header line names its record. \<open>started\<close> holds once
  \<open>_process_file_kmers\<close> has read such a header line.
\<close>

definition header_named :: "string \<Rightarrow> bool" where
  "header_named raw =
     (startswith (strip raw) ''>'' \<longrightarrow> fst (extract_reference_name (strip raw)) \<noteq> [])"

definition well_formed :: "file_lines \<Rightarrow> bool" where
  "well_formed f =
     (case f of
        (lines, failure) \<Rightarrow>
          failure = None \<and> (lines = [] \<or> startswith (strip (hd lines)) ''>'') \<and>
          list_all header_named lines)"

definition started :: "pstate \<Rightarrow> bool" where
  "started st = (\<exists>r. current_reference st = Some r \<and> r \<noteq> [])"

inductive session_state :: "handler \<Rightarrow> bool" where
  built: "session_state (fst (load_database_multithreaded hs (handler_init k f) db))"
| matched: "session_state h \<Longrightarrow> session_state (fst (match_sequences h query_lines))"
| reloaded:
    "session_state h \<Longrightarrow>
     save_bloom_filter h fs directory = Inr fs' \<Longrightarrow>
     load_bloom_filter h0 fs' (path_join directory ''bloom_filter.pkl'') = Inr h' \<Longrightarrow>
     session_state h'"

section \<open>A worked example\<close>

text \<open>
  The corpus of the example: one file with the single record \<^verbatim>\<open>ref1\<close> and body
  \<^verbatim>\<open>ACGTACGT\<close>, indexed with \<open>k = 3\<close> and the default factor. The hash family of
  the example sets one bit per key, the code of its first character, so that two k-mers with
  the same first character collide: \<^verbatim>\<open>TTT\<close> probes as present once \<^verbatim>\<open>TAC\<close> was added.
\<close>

definition first_char_hash :: "string \<Rightarrow> nat list" where
  "first_char_hash s = map of_char (take 1 s)"

definition example_db :: database where
  "example_db = [(''ref1.fna'', ([''>ref1'', ''ACGTACGT''], None))]"

definition example_index :: handler where
  "example_index = fst (load_database_multithreaded first_char_hash (handler_init 3 4) example_db)"

text \<open>The row that matching the query \<^verbatim>\<open>ACGTACGT\<close> against the example index writes.\<close>

definition example_row :: row where
  "example_row =
     \<lparr>sequence_name = ''q'', total_input_kmers = 4, reference = ''ref1'', matched_kmers = 4,
      reference_total_kmers = 6, gca_name = ''Unknown'', jacc = ''1.0000'', qcov = ''1.0000''\<rparr>"

text \<open>
  The filter of the example index, and the same filter with one more bit set, under which
  k-mers that start with \<^verbatim>\<open>N\<close> probe as present too.
\<close>

definition example_bloom :: bloom_filter where
  "example_bloom =
     \<lparr>capacity = 24, count = 4, bitarray = {65, 67, 71, 84}, make_hashes = first_char_hash\<rparr>"

definition noisy_bloom :: bloom_filter where
  "noisy_bloom = example_bloom\<lparr>bitarray := insert 78 (bitarray example_bloom)\<rparr>"



text \<open>
  A file whose second record has lost the marker of its header line.
\<close>

definition malformed_db :: database where
  "malformed_db = [(''a.fna'', ([''>ref1'', ''ACGT'', ''ref2'', ''TTTT''], None))]"

text \<open>
  A file whose sequence has no header line, and a database with one file of each kind of
  extension.
\<close>

definition headerless_db :: database where
  "headerless_db = [(''a.fna'', ([''ACGTACGT''], None))]"

definition mixed_db :: database where
  "mixed_db = [(''ref1.fna'', ([''>ref1'', ''ACGTACGT''], None)),
               (''more.fasta'', ([''>ref2'', ''TTTTT''], None))]"

section \<open>Properties of k-mer extraction\<close>

lemma py_slice_window:
  assumes "0 \<le> k" and "i + nat k \<le> length s"
  shows "py_slice s (int i) (int i + k) = take (nat k) (drop i s)"
proof -
  have lo: "clamp_index (int (length s)) (int i) = i"
    using assms unfolding clamp_index_def by (auto simp: min_def)
  have hi: "clamp_index (int (length s)) (int i + k) = i + nat k"
    using assms unfolding clamp_index_def by (auto simp: min_def)
  show ?thesis
    by (simp add: py_slice_def Let_def lo hi)
qed

lemma length_py_range: "length (py_range n) = nat n"
  by (simp add: py_range_def)

lemma nth_py_range: "int i < n \<Longrightarrow> py_range n ! i = int i"
  by (simp add: py_range_def)

lemma py_range_nonpos: "n \<le> 0 \<Longrightarrow> py_range n = []"
  by (simp add: py_range_def)

lemma length_extract_kmers: "length (extract_kmers k s) = nat (int (length s) - k + 1)"
  by (simp add: extract_kmers_def length_py_range)

lemma nth_extract_kmers:
  assumes "0 \<le> k" and "int i < int (length s) - k + 1"
  shows "extract_kmers k s ! i = take (nat k) (drop i s)"
proof -
  have bound: "i + nat k \<le> length s"
    using assms by linarith
  have len: "i < length (py_range (int (length s) - k + 1))"
    using assms(2) by (simp add: length_py_range)
  have "extract_kmers k s ! i = py_slice s (int i) (int i + k)"
    unfolding extract_kmers_def using len nth_py_range [OF assms(2)] by simp
  then show ?thesis
    using py_slice_window [OF assms(1) bound] by simp
qed

lemma sm_extract_kmers_eq: "sm_extract_kmers k s = extract_kmers k s"
  by (simp add: sm_extract_kmers_def extract_kmers_def)

text \<open>
  The k-mer size is an unvalidated integer (\<^verbatim>\<open>--kmer_size\<close> is parsed with \<^verbatim>\<open>type=int\<close>), so
  a negative \<open>k\<close> reaches both functions. Then \<open>k \<le> L\<close> holds for every sequence, the
  comprehension still runs over \<open>L - k + 1\<close> offsets, and the slice bounds \<open>i\<close> and
  \<open>i + k\<close> are read from the end of the string when negative: for \<open>k = -3\<close> and
  \<^verbatim>\<open>ACGT\<close> the result has eight items, three of length one and five empty, none of
  length \<open>k\<close> and none a window starting at its offset.
\<close>

theorem extract_kmers_negative_size:
  "(- 3 :: int) \<le> int (length ''ACGT'') \<and>
   extract_kmers (- 3) ''ACGT'' = [''A'', ''C'', ''G'', '''', '''', '''', '''', ''''] \<and>
   sm_extract_kmers (- 3) ''ACGT'' = [''A'', ''C'', ''G'', '''', '''', '''', '''', ''''] \<and>
   int (length (extract_kmers (- 3) ''ACGT'' ! 0)) \<noteq> - 3 \<and>
   int (length (sm_extract_kmers (- 3) ''ACGT'' ! 0)) \<noteq> - 3"
proof -
  have a: "extract_kmers (- 3) ''ACGT'' = [''A'', ''C'', ''G'', '''', '''', '''', '''', '''']"
    by code_simp
  show ?thesis
    by (simp add: a sm_extract_kmers_eq)
qed

text \<open>
  C3. For a sequence of length \<open>L\<close> and a k-mer size \<open>k\<close> with \<open>0 \<le> k \<le> L\<close>, both
  extraction functions return exactly \<open>L - k + 1\<close> substrings; the one at position \<open>i\<close>
  is the window of length \<open>k\<close> that starts at offset \<open>i\<close>, so the offsets run from \<open>0\<close>
  to \<open>L - k\<close> with stride 1. For \<open>L < k\<close> they return the empty list.
\<close>

theorem extract_kmers_windows:
  "(0 \<le> k \<and> k \<le> int (length s) \<longrightarrow>
      length (extract_kmers k s) = length s - nat k + 1 \<and>
      length (sm_extract_kmers k s) = length s - nat k + 1 \<and>
      (\<forall>i < length s - nat k + 1.
          extract_kmers k s ! i = take (nat k) (drop i s) \<and>
          sm_extract_kmers k s ! i = take (nat k) (drop i s) \<and>
          length (extract_kmers k s ! i) = nat k)) \<and>
   (int (length s) < k \<longrightarrow> extract_kmers k s = [] \<and> sm_extract_kmers k s = [])"
proof (intro conjI impI allI)
  assume h: "0 \<le> k \<and> k \<le> int (length s)"
  then show "length (extract_kmers k s) = length s - nat k + 1"
    by (simp add: length_extract_kmers) linarith
  from h show "length (sm_extract_kmers k s) = length s - nat k + 1"
    by (simp add: sm_extract_kmers_eq length_extract_kmers) linarith
next
  fix i
  assume h: "0 \<le> k \<and> k \<le> int (length s)" and i: "i < length s - nat k + 1"
  have b: "int i < int (length s) - k + 1"
    using h i by linarith
  show "extract_kmers k s ! i = take (nat k) (drop i s)"
    using h b by (simp add: nth_extract_kmers)
  show "sm_extract_kmers k s ! i = take (nat k) (drop i s)"
    using h b by (simp add: sm_extract_kmers_eq nth_extract_kmers)
  have "i + nat k \<le> length s"
    using h i by linarith
  then show "length (extract_kmers k s ! i) = nat k"
    using h b by (simp add: nth_extract_kmers)
next
  assume "int (length s) < k"
  then show "extract_kmers k s = []"
    by (simp add: extract_kmers_def py_range_nonpos)
next
  assume "int (length s) < k"
  then show "sm_extract_kmers k s = []"
    by (simp add: sm_extract_kmers_eq extract_kmers_def py_range_nonpos)
qed

theorem extract_kmers_windows_witness:
  "extract_kmers 3 ''ACGTACGT'' = [''ACG'', ''CGT'', ''GTA'', ''TAC'', ''ACG'', ''CGT''] \<and>
   length (extract_kmers 3 ''ACGTACGT'') = 6 \<and>
   extract_kmers 3 ''ACGTACGT'' ! 2 = ''GTA'' \<and>
   extract_kmers 3 ''AC'' = []"
proof -
  have a: "extract_kmers 3 ''ACGTACGT'' = [''ACG'', ''CGT'', ''GTA'', ''TAC'', ''ACG'', ''CGT'']"
    by code_simp
  have b: "extract_kmers 3 ''AC'' = []"
    using extract_kmers_windows [of 3 "''AC''"] by simp
  have c: "length (extract_kmers 3 ''ACGTACGT'') = 6"
    using extract_kmers_windows [of 3 "''ACGTACGT''"] by simp
  have d: "extract_kmers 3 ''ACGTACGT'' ! 2 = ''GTA''"
    using extract_kmers_windows [of 3 "''ACGTACGT''"] by simp
  show ?thesis using a b c d by simp
qed

section \<open>Dictionaries, the membership set and the build invariant\<close>

lemma dd_getitem_fst: "fst (dd_getitem d k) = dd_view d k"
  by (simp add: dd_getitem_def dd_view_def split: option.splits)

lemma dd_getitem_snd:
  "\<exists>e. snd (dd_getitem d k) = d @ e \<and> empties e \<and> fst ` set e \<subseteq> {k}"
  by (auto simp: dd_getitem_def empties_def split: option.splits)

lemma dd_view_append_empties: "empties e \<Longrightarrow> dd_view (d @ e) = dd_view d"
proof (rule ext)
  fix k
  assume e: "empties e"
  have "map_of e k = None \<or> map_of e k = Some []"
  proof (cases "map_of e k")
    case None then show ?thesis by simp
  next
    case (Some v)
    then have "(k, v) \<in> set e" by (rule map_of_SomeD)
    with e have "v = []" by (auto simp: empties_def)
    with Some show ?thesis by simp
  qed
  then show "dd_view (d @ e) k = dd_view d k"
    by (auto simp: dd_view_def map_add_def split: option.splits)
qed

lemma dd_getitem_view: "dd_view (snd (dd_getitem d k)) = dd_view d"
  using dd_getitem_snd [of d k] by (auto simp: dd_view_append_empties)

lemma dd_getitem_keys: "fst ` set (snd (dd_getitem d k)) = insert k (fst ` set d)"
  by (auto simp: dd_getitem_def split: option.splits dest: map_of_SomeD weak_map_of_SomeI
      simp: map_of_eq_None_iff intro: rev_image_eqI)

lemma dd_getitem_distinct:
  "distinct (map fst d) \<Longrightarrow> distinct (map fst (snd (dd_getitem d k)))"
  by (auto simp: dd_getitem_def map_of_eq_None_iff split: option.splits)

lemma dd_add_view: "dd_view (dd_add k x d) = (dd_view d)(k := set_add x (dd_view d k))"
proof (rule ext)
  fix k'
  obtain v d' where g: "dd_getitem d k = (v, d')" by (cases "dd_getitem d k")
  have v: "v = dd_view d k" using dd_getitem_fst [of d k] g by simp
  have d': "dd_view d' = dd_view d" using dd_getitem_view [of d k] g by simp
  have "dd_view (AList.update k (set_add x v) d') k' = ((dd_view d')(k := set_add x v)) k'"
    by (simp add: dd_view_def update_conv')
  then show "dd_view (dd_add k x d) k' = ((dd_view d)(k := set_add x (dd_view d k))) k'"
    by (simp add: dd_add_def g v d')
qed

lemma dd_add_keys: "fst ` set (dd_add k x d) = insert k (fst ` set d)"
proof -
  obtain v d' where g: "dd_getitem d k = (v, d')" by (cases "dd_getitem d k")
  have "fst ` set d' = insert k (fst ` set d)" using dd_getitem_keys [of d k] g by simp
  then show ?thesis by (simp add: dd_add_def g dom_update)
qed

lemma dd_add_distinct: "distinct (map fst d) \<Longrightarrow> distinct (map fst (dd_add k x d))"
proof -
  assume a: "distinct (map fst d)"
  obtain v d' where g: "dd_getitem d k = (v, d')" by (cases "dd_getitem d k")
  have "distinct (map fst d')" using dd_getitem_distinct [OF a, of k] g by simp
  then show ?thesis by (simp add: dd_add_def g distinct_update)
qed

lemma bloom_contains_iff: "bloom_contains b key \<longleftrightarrow> set (make_hashes b key) \<subseteq> bitarray b"
  by (auto simp: bloom_contains_def list_all_iff)

lemma bloom_add_hashes: "bloom_add b key = Inr b' \<Longrightarrow> make_hashes b' = make_hashes b"
  by (auto simp: bloom_add_def Let_def split: if_splits)

lemma bloom_add_bits:
  "bloom_add b key = Inr b' \<Longrightarrow> bitarray b' = bitarray b \<union> set (make_hashes b key)"
  by (auto simp: bloom_add_def Let_def split: if_splits)

lemma bloom_add_contains: "bloom_add b key = Inr b' \<Longrightarrow> bloom_contains b' key"
  by (simp add: bloom_contains_iff bloom_add_hashes bloom_add_bits)

lemma bloom_add_mono:
  "bloom_add b key = Inr b' \<Longrightarrow> bloom_contains b x \<Longrightarrow> bloom_contains b' x"
  by (auto simp: bloom_contains_iff bloom_add_hashes bloom_add_bits)

lemma add_kmers_loop_catalog:
  "catalog_in_bloom h \<Longrightarrow> catalog_in_bloom (fst (add_kmers_loop h r kmers))"
proof (induction kmers arbitrary: h)
  case Nil
  then show ?case by simp
next
  case (Cons kmer kmers)
  show ?case
  proof (cases "bloom h")
    case None
    with Cons.prems show ?thesis by simp
  next
    case (Some b)
    show ?thesis
    proof (cases "bloom_add b kmer")
      case (Inl e)
      with Some Cons.prems show ?thesis by simp
    next
      case (Inr b')
      let ?h = "h\<lparr>bloom := Some b',
          kmer_to_reference := dd_add kmer r (kmer_to_reference h)\<rparr>"
      have "catalog_in_bloom ?h"
        using Cons.prems Some bloom_add_contains [OF Inr] bloom_add_mono [OF Inr]
        by (auto simp: catalog_in_bloom_def dd_add_keys)
      then have "catalog_in_bloom (fst (add_kmers_loop ?h r kmers))"
        by (rule Cons.IH)
      with Some Inr show ?thesis by simp
    qed
  qed
qed

lemma add_kmers_loop_distinct:
  "distinct (map fst (kmer_to_reference h)) \<Longrightarrow>
   distinct (map fst (kmer_to_reference (fst (add_kmers_loop h r kmers))))"
proof (induction kmers arbitrary: h)
  case Nil
  then show ?case by simp
next
  case (Cons kmer kmers)
  show ?case
  proof (cases "bloom h")
    case None
    with Cons.prems show ?thesis by simp
  next
    case (Some b)
    show ?thesis
    proof (cases "bloom_add b kmer")
      case (Inl e)
      with Some Cons.prems show ?thesis by simp
    next
      case (Inr b')
      let ?h = "h\<lparr>bloom := Some b',
          kmer_to_reference := dd_add kmer r (kmer_to_reference h)\<rparr>"
      have "distinct (map fst (kmer_to_reference ?h))"
        using Cons.prems by (simp add: dd_add_distinct)
      then have "distinct (map fst (kmer_to_reference (fst (add_kmers_loop ?h r kmers))))"
        by (rule Cons.IH)
      with Some Inr show ?thesis by simp
    qed
  qed
qed

lemma add_kmers_loop_inv: "index_inv h \<Longrightarrow> index_inv (fst (add_kmers_loop h r kmers))"
  by (simp add: index_inv_def add_kmers_loop_catalog add_kmers_loop_distinct)

lemma index_inv_counts [simp]:
  "index_inv (h\<lparr>reference_kmer_count := c\<rparr>) = index_inv h"
  by (simp add: index_inv_def catalog_in_bloom_def)

lemma index_inv_gca [simp]:
  "index_inv (h\<lparr>reference_gca_map := g\<rparr>) = index_inv h"
  by (simp add: index_inv_def catalog_in_bloom_def)

lemma add_kmers_to_bloom_inv:
  "index_inv h \<Longrightarrow> index_inv (fst (add_kmers_to_bloom h s r))"
  using add_kmers_loop_inv [of h r "extract_kmers (kmer_size h) s"]
  by (auto simp: add_kmers_to_bloom_def Let_def split: prod.splits option.splits)

lemma ingest_record_inv:
  "index_inv (ps_handler st) \<Longrightarrow> index_inv (ps_handler (fst (ingest_record st)))"
  using add_kmers_to_bloom_inv
    [of "ps_handler st" "concat (sequence_data st)" "the (current_reference st)"]
  by (auto simp: ingest_record_def split: prod.splits sum.splits)

lemma start_record_inv:
  "index_inv (ps_handler st) \<Longrightarrow> index_inv (ps_handler (start_record g l st))"
  by (simp add: start_record_def split: prod.splits)

lemma process_lines_inv:
  "index_inv (ps_handler st) \<Longrightarrow> index_inv (ps_handler (fst (process_lines g ls st)))"
proof (induction ls arbitrary: st)
  case Nil
  then show ?case by simp
next
  case (Cons raw rest)
  note inv = Cons.prems
  show ?case
  proof (cases "startswith (strip raw) ''>''")
    case False
    have "index_inv (ps_handler (st\<lparr>sequence_data := sequence_data st @ [strip raw]\<rparr>))"
      using inv by simp
    from Cons.IH [OF this] False show ?thesis by (simp add: Let_def)
  next
    case True
    show ?thesis
    proof (cases "has_record st")
      case False
      from Cons.IH [OF start_record_inv [OF inv]] True False
      show ?thesis by (simp add: Let_def)
    next
      case hr: True
      obtain st' r where ir: "ingest_record st = (st', r)" by (cases "ingest_record st")
      have inv': "index_inv (ps_handler st')" using ingest_record_inv [OF inv] ir by simp
      show ?thesis
      proof (cases r)
        case (Some e)
        with True hr ir inv' show ?thesis by (simp add: Let_def)
      next
        case None
        have "index_inv (ps_handler (st'\<lparr>sequence_data := []\<rparr>))" using inv' by simp
        from Cons.IH [OF start_record_inv [OF this]] True hr ir None
        show ?thesis by (simp add: Let_def)
      qed
    qed
  qed
qed

lemma process_file_kmers_inv:
  "index_inv h \<Longrightarrow> index_inv (fst (process_file_kmers h p f))"
proof (cases f)
  case (Pair ls failure)
  assume inv: "index_inv h"
  let ?st0 = "\<lparr>ps_handler = h, actual_kmer_count = 0, current_reference = None,
                   sequence_data = [], warnings = []\<rparr>"
  obtain st r where pl: "process_lines (extract_gca_from_filename p) ls ?st0 = (st, r)"
    by (cases "process_lines (extract_gca_from_filename p) ls ?st0")
  have i1: "index_inv (ps_handler st)"
    using process_lines_inv [of ?st0 "extract_gca_from_filename p" ls] inv pl by simp
  have i2: "index_inv (ps_handler (fst (ingest_record st)))"
    by (rule ingest_record_inv [OF i1])
  show ?thesis
    using Pair pl i1 i2
    by (auto simp: process_file_kmers_def split: option.splits prod.splits)
qed

lemma run_tasks_inv: "index_inv h \<Longrightarrow> index_inv (fst (run_tasks h db))"
proof (induction db arbitrary: h)
  case Nil
  then show ?case by simp
next
  case (Cons pf rest)
  obtain h1 w1 r1 where p: "process_file_kmers h (fst pf) (snd pf) = (h1, w1, r1)"
    by (cases "process_file_kmers h (fst pf) (snd pf)") auto
  have "index_inv h1" using process_file_kmers_inv [OF Cons.prems, of "fst pf" "snd pf"] p by simp
  from Cons.IH [OF this] p show ?case by (auto split: prod.splits)
qed

lemma load_database_inv:
  assumes "kmer_to_reference h = []"
  shows "index_inv (fst (load_database_multithreaded hs h db))"
proof -
  let ?est = "estimate_total_kmers_in_db h db"
  have base: "index_inv h" using assms by (simp add: index_inv_def catalog_in_bloom_def)
  show ?thesis
  proof (cases "0 < ?est")
    case False
    with base show ?thesis by (simp add: load_database_multithreaded_def Let_def)
  next
    case True
    show ?thesis
    proof (cases "initialize_bloom_filter hs h (?est * factor h)")
      case (Inl e)
      with True base show ?thesis by (simp add: load_database_multithreaded_def Let_def)
    next
      case (Inr h1)
      then have "index_inv h1"
        using assms
        by (auto simp: initialize_bloom_filter_def index_inv_def catalog_in_bloom_def
            split: sum.splits)
      then have "index_inv (fst (run_tasks h1 (filter (\<lambda>pf. build_ext (fst pf)) db)))"
        by (rule run_tasks_inv)
      with True Inr show ?thesis
        by (auto simp: load_database_multithreaded_def Let_def split: prod.splits)
    qed
  qed
qed

lemma empties_append [simp]: "empties (a @ b) \<longleftrightarrow> empties a \<and> empties b"
  by (auto simp: empties_def)

lemma empties_Nil [simp]: "empties []"
  by (simp add: empties_def)

lemma get_reference_kmers_append:
  "empties e \<Longrightarrow>
   get_reference_kmers (h\<lparr>kmer_to_reference := d @ e\<rparr>) r =
   get_reference_kmers (h\<lparr>kmer_to_reference := d\<rparr>) r"
proof -
  assume "empties e"
  then have "filter (\<lambda>kr. r \<in> set (snd kr)) e = []"
    by (auto simp: empties_def filter_empty_conv)
  then show ?thesis by (simp add: get_reference_kmers_def)
qed

lemma match_kmers_state:
  "\<exists>e. fst (match_kmers h m ks) = h\<lparr>kmer_to_reference := kmer_to_reference h @ e\<rparr> \<and>
       empties e \<and> (\<forall>k \<in> fst ` set e. \<exists>b. bloom h = Some b \<and> bloom_contains b k)"
proof (induction ks arbitrary: h m)
  case Nil
  have "h = h\<lparr>kmer_to_reference := kmer_to_reference h @ []\<rparr>" by simp
  then show ?case by (metis empties_Nil empty_iff fst_conv image_empty list.set(1) match_kmers.simps(1))
next
  case (Cons kmer ks)
  show ?case
  proof (cases "bloom h")
    case None
    have "h = h\<lparr>kmer_to_reference := kmer_to_reference h @ []\<rparr>" by simp
    moreover have "fst (match_kmers h m (kmer # ks)) = h" using None by simp
    ultimately show ?thesis
      by (metis empties_Nil empty_iff image_empty list.set(1))
  next
    case (Some b)
    show ?thesis
    proof (cases "bloom_contains b kmer")
      case False
      with Some Cons.IH [of h m] show ?thesis by simp
    next
      case True
      obtain refs d where g: "dd_getitem (kmer_to_reference h) kmer = (refs, d)"
        by (cases "dd_getitem (kmer_to_reference h) kmer")
      obtain e0 where e0: "d = kmer_to_reference h @ e0" "empties e0" "fst ` set e0 \<subseteq> {kmer}"
        using dd_getitem_snd [of "kmer_to_reference h" kmer] g by auto
      let ?h = "h\<lparr>kmer_to_reference := d\<rparr>"
      let ?m = "fold (\<lambda>ref m. dd_add ref kmer m) refs m"
      obtain e1 where e1: "fst (match_kmers ?h ?m ks) = ?h\<lparr>kmer_to_reference := kmer_to_reference ?h @ e1\<rparr>"
        "empties e1" "\<forall>k \<in> fst ` set e1. \<exists>b. bloom ?h = Some b \<and> bloom_contains b k"
        using Cons.IH [of ?h ?m] by blast
      have eq: "fst (match_kmers h m (kmer # ks)) = fst (match_kmers ?h ?m ks)"
        using Some True g by simp
      have "fst (match_kmers h m (kmer # ks)) =
            h\<lparr>kmer_to_reference := kmer_to_reference h @ (e0 @ e1)\<rparr>"
        using eq e1(1) e0(1) by simp
      moreover have "empties (e0 @ e1)" using e0(2) e1(2) by simp
      moreover have "\<forall>k \<in> fst ` set (e0 @ e1). \<exists>b. bloom h = Some b \<and> bloom_contains b k"
        using e0(3) e1(3) Some True by auto
      ultimately show ?thesis by blast
    qed
  qed
qed

lemma match_kmers_inv: "index_inv h \<Longrightarrow> index_inv (fst (match_kmers h m ks))"
proof (induction ks arbitrary: h m)
  case Nil
  then show ?case by simp
next
  case (Cons kmer ks)
  show ?case
  proof (cases "bloom h")
    case None
    with Cons.prems show ?thesis by simp
  next
    case (Some b)
    show ?thesis
    proof (cases "bloom_contains b kmer")
      case False
      with Some Cons.IH [OF Cons.prems, of m] show ?thesis by simp
    next
      case True
      obtain refs d where g: "dd_getitem (kmer_to_reference h) kmer = (refs, d)"
        by (cases "dd_getitem (kmer_to_reference h) kmer")
      have k: "fst ` set d = insert kmer (fst ` set (kmer_to_reference h))"
        using dd_getitem_keys [of "kmer_to_reference h" kmer] g by simp
      have dd: "distinct (map fst d)"
        using dd_getitem_distinct [of "kmer_to_reference h" kmer] g Cons.prems
        by (simp add: index_inv_def)
      have "index_inv (h\<lparr>kmer_to_reference := d\<rparr>)"
        using Cons.prems Some True k dd by (auto simp: index_inv_def catalog_in_bloom_def)
      from Cons.IH [OF this] Some True g show ?thesis by simp
    qed
  qed
qed

lemma match_sequence_inv: "index_inv h \<Longrightarrow> index_inv (fst (match_sequence h n s))"
  using match_kmers_inv [of h "[]" "py_set (sm_extract_kmers (kmer_size h) s)"]
  by (auto simp: match_sequence_def Let_def split: prod.splits sum.splits)

lemma match_records_inv: "index_inv h \<Longrightarrow> index_inv (fst (match_records h qs))"
proof (induction qs arbitrary: h)
  case Nil
  then show ?case by simp
next
  case (Cons q qs)
  obtain h' r where m: "match_sequence h (fst q) (snd q) = (h', r)"
    by (cases "match_sequence h (fst q) (snd q)")
  have i: "index_inv h'" using match_sequence_inv [OF Cons.prems, of "fst q" "snd q"] m by simp
  show ?case
  proof (cases r)
    case (Inl e)
    with m i show ?thesis by simp
  next
    case (Inr rows)
    with m Cons.IH [OF i] show ?thesis by (auto split: prod.splits)
  qed
qed

lemma match_sequences_inv: "index_inv h \<Longrightarrow> index_inv (fst (match_sequences h q))"
  by (simp add: match_sequences_def match_records_inv)

lemma load_save_inv:
  assumes "index_inv h"
    and "save_bloom_filter h fs d = Inr fs'"
    and "load_bloom_filter h0 fs' (path_join d ''bloom_filter.pkl'') = Inr h'"
  shows "index_inv h'"
proof -
  have "bloom h' = bloom h" and "kmer_to_reference h' = kmer_to_reference h"
    using assms(2,3)
    by (auto simp: load_bloom_filter_def save_bloom_filter_def split: if_splits)
  with assms(1) show ?thesis by (simp add: index_inv_def catalog_in_bloom_def)
qed

lemma dd_view_not_key: "k \<notin> fst ` set d \<Longrightarrow> dd_view d k = []"
  using map_of_eq_None_iff [of d k] by (simp add: dd_view_def)

lemma same_index_getitem1:
  assumes "same_index d h1 h2"
  shows "same_index d (h1\<lparr>kmer_to_reference := snd (dd_getitem (kmer_to_reference h1) k)\<rparr>) h2"
proof -
  obtain e where "snd (dd_getitem (kmer_to_reference h1) k) = kmer_to_reference h1 @ e" "empties e"
    using dd_getitem_snd [of "kmer_to_reference h1" k] by blast
  with assms show ?thesis
    by (auto simp: same_index_def)
qed

lemma same_index_getitem2:
  assumes "same_index d h1 h2"
  shows "same_index d h1 (h2\<lparr>kmer_to_reference := snd (dd_getitem (kmer_to_reference h2) k)\<rparr>)"
proof -
  obtain e where "snd (dd_getitem (kmer_to_reference h2) k) = kmer_to_reference h2 @ e" "empties e"
    using dd_getitem_snd [of "kmer_to_reference h2" k] by blast
  with assms show ?thesis
    by (auto simp: same_index_def)
qed

lemma same_index_view:
  assumes "same_index d h1 h2"
  shows "dd_view (kmer_to_reference h1) = dd_view d" "dd_view (kmer_to_reference h2) = dd_view d"
  using assms by (auto simp: same_index_def dd_view_append_empties)

lemma match_kmers_cong:
  "same_index d h1 h2 \<Longrightarrow>
   snd (match_kmers h1 m ks) = snd (match_kmers h2 m ks) \<and>
   same_index d (fst (match_kmers h1 m ks)) (fst (match_kmers h2 m ks))"
proof (induction ks arbitrary: h1 h2 m)
  case Nil
  then show ?case by simp
next
  case (Cons kmer ks)
  note si = Cons.prems
  show ?case
  proof (cases "bloom h1")
    case None
    then have "bloom h2 = None" using si by (auto simp: same_index_def)
    with None si show ?thesis by simp
  next
    case (Some b1)
    then obtain b2 where b2: "bloom h2 = Some b2"
      and agree: "\<forall>k \<in> fst ` set d. bloom_contains b1 k = bloom_contains b2 k"
      using si by (auto simp: same_index_def)
    obtain x1 d1 where g1: "dd_getitem (kmer_to_reference h1) kmer = (x1, d1)"
      by (cases "dd_getitem (kmer_to_reference h1) kmer")
    obtain x2 d2 where g2: "dd_getitem (kmer_to_reference h2) kmer = (x2, d2)"
      by (cases "dd_getitem (kmer_to_reference h2) kmer")
    let ?h1 = "h1\<lparr>kmer_to_reference := d1\<rparr>"
    let ?h2 = "h2\<lparr>kmer_to_reference := d2\<rparr>"
    have r1: "x1 = dd_view d kmer"
      using same_index_view(1) [OF si] dd_getitem_fst [of "kmer_to_reference h1" kmer] g1
      by simp
    have r2: "x2 = dd_view d kmer"
      using same_index_view(2) [OF si] dd_getitem_fst [of "kmer_to_reference h2" kmer] g2
      by simp
    have si1: "same_index d ?h1 h2"
      using same_index_getitem1 [OF si, of kmer] g1 by simp
    have si2: "same_index d h1 ?h2"
      using same_index_getitem2 [OF si, of kmer] g2 by simp
    have si12: "same_index d ?h1 ?h2"
      using same_index_getitem2 [OF si1, of kmer] g2 by simp
    have s1: "match_kmers h1 m (kmer # ks) =
        (if bloom_contains b1 kmer
         then match_kmers ?h1 (fold (\<lambda>ref m. dd_add ref kmer m) (dd_view d kmer) m) ks
         else match_kmers h1 m ks)"
      using Some g1 r1 by simp
    have s2: "match_kmers h2 m (kmer # ks) =
        (if bloom_contains b2 kmer
         then match_kmers ?h2 (fold (\<lambda>ref m. dd_add ref kmer m) (dd_view d kmer) m) ks
         else match_kmers h2 m ks)"
      using b2 g2 r2 by simp
    show ?thesis
    proof (cases "bloom_contains b1 kmer")
      case c1: True
      show ?thesis
      proof (cases "bloom_contains b2 kmer")
        case c2: True
        from Cons.IH [OF si12] s1 s2 c1 c2 show ?thesis by simp
      next
        case c2: False
        have "kmer \<notin> fst ` set d" using agree c1 c2 by blast
        then have v: "dd_view d kmer = []" by (rule dd_view_not_key)
        from Cons.IH [OF si1] s1 s2 c1 c2 v show ?thesis by simp
      qed
    next
      case c1: False
      show ?thesis
      proof (cases "bloom_contains b2 kmer")
        case c2: True
        have "kmer \<notin> fst ` set d" using agree c1 c2 by blast
        then have v: "dd_view d kmer = []" by (rule dd_view_not_key)
        from Cons.IH [OF si2] s1 s2 c1 c2 v show ?thesis by simp
      next
        case c2: False
        from Cons.IH [OF si] s1 s2 c1 c2 show ?thesis by simp
      qed
    qed
  qed
qed

lemma get_reference_kmers_same:
  assumes "same_index d h1 h2"
  shows "get_reference_kmers h1 r = get_reference_kmers h2 r"
proof -
  obtain e1 e2 where e: "kmer_to_reference h1 = d @ e1" "kmer_to_reference h2 = d @ e2"
    "empties e1" "empties e2"
    using assms by (auto simp: same_index_def)
  have "filter (\<lambda>kr. r \<in> set (snd kr)) e1 = []" "filter (\<lambda>kr. r \<in> set (snd kr)) e2 = []"
    using e(3,4) by (auto simp: empties_def filter_empty_conv)
  then show ?thesis by (simp add: get_reference_kmers_def e)
qed

lemma score_row_same:
  assumes "same_index d h1 h2"
  shows "score_row h1 n q rm = score_row h2 n q rm"
proof -
  have "reference_kmer_count h1 = reference_kmer_count h2"
    "reference_gca_map h1 = reference_gca_map h2"
    using assms by (auto simp: same_index_def)
  then show ?thesis
    by (simp add: score_row_def get_reference_kmers_same [OF assms] split: prod.splits)
qed

lemma match_sequence_cong:
  assumes "same_index d h1 h2"
  shows "snd (match_sequence h1 n s) = snd (match_sequence h2 n s) \<and>
         same_index d (fst (match_sequence h1 n s)) (fst (match_sequence h2 n s))"
proof -
  have k: "kmer_size h1 = kmer_size h2" using assms by (simp add: same_index_def)
  let ?q = "py_set (sm_extract_kmers (kmer_size h2) s)"
  obtain h1' r1 where m1: "match_kmers h1 [] ?q = (h1', r1)" by (cases "match_kmers h1 [] ?q")
  obtain h2' r2 where m2: "match_kmers h2 [] ?q = (h2', r2)" by (cases "match_kmers h2 [] ?q")
  have c: "r1 = r2" "same_index d h1' h2'"
    using match_kmers_cong [OF assms, of "[]" ?q] m1 m2 by auto
  show ?thesis
  proof (cases r1)
    case (Inl e)
    then have "r2 = Inl e" using c(1) by simp
    with Inl c(2) m1 m2 k show ?thesis by (simp add: match_sequence_def Let_def)
  next
    case (Inr m)
    then have r2: "r2 = Inr m" using c(1) by simp
    have "map (score_row h1' n ?q) m = map (score_row h2' n ?q) m"
      by (simp add: score_row_same [OF c(2)])
    with Inr r2 c(2) m1 m2 k show ?thesis by (simp add: match_sequence_def Let_def)
  qed
qed

lemma match_records_cong:
  "same_index d h1 h2 \<Longrightarrow>
   snd (match_records h1 qs) = snd (match_records h2 qs) \<and>
   same_index d (fst (match_records h1 qs)) (fst (match_records h2 qs))"
proof (induction qs arbitrary: h1 h2)
  case Nil
  then show ?case by simp
next
  case (Cons q qs)
  obtain h1' r1 where m1: "match_sequence h1 (fst q) (snd q) = (h1', r1)"
    by (cases "match_sequence h1 (fst q) (snd q)")
  obtain h2' r2 where m2: "match_sequence h2 (fst q) (snd q) = (h2', r2)"
    by (cases "match_sequence h2 (fst q) (snd q)")
  have c: "r1 = r2" "same_index d h1' h2'"
    using match_sequence_cong [OF Cons.prems, of "fst q" "snd q"] m1 m2 by auto
  show ?case
  proof (cases r1)
    case (Inl e)
    then have "r2 = Inl e" using c(1) by simp
    with Inl c(2) m1 m2 show ?thesis by simp
  next
    case (Inr rows)
    then have "r2 = Inr rows" using c(1) by simp
    with Cons.IH [OF c(2)] Inr m1 m2 show ?thesis
      by (auto split: prod.splits)
  qed
qed

lemma match_sequences_cong:
  "same_index d h1 h2 \<Longrightarrow> snd (match_sequences h1 q) = snd (match_sequences h2 q)"
  by (simp add: match_sequences_def match_records_cong)

lemma set_set_add [simp]: "set (set_add x xs) = insert x (set xs)"
  by (auto simp: set_add_def)

lemma distinct_set_add [simp]: "distinct (set_add x xs) = distinct xs"
  by (auto simp: set_add_def)

lemma set_add_idem [simp]: "set_add x (set_add x xs) = set_add x xs"
  by (simp add: set_add_def)

lemma fold_dd_add_view:
  "dd_view (fold (\<lambda>ref m. dd_add ref kmer m) refs m) r =
     (if r \<in> set refs then set_add kmer (dd_view m r) else dd_view m r)"
  by (induction refs arbitrary: m) (auto simp: dd_add_view)

lemma fold_dd_add_keys:
  "fst ` set (fold (\<lambda>ref m. dd_add ref kmer m) refs m) = fst ` set m \<union> set refs"
  by (induction refs arbitrary: m) (auto simp: dd_add_keys)

lemma fold_dd_add_distinct:
  "distinct (map fst m) \<Longrightarrow> distinct (map fst (fold (\<lambda>ref m. dd_add ref kmer m) refs m))"
  by (induction refs arbitrary: m) (auto simp: dd_add_distinct)

lemma match_kmers_result:
  assumes "bloom h = Some b" and "dd_view (kmer_to_reference h) = v"
  shows "\<exists>m'. snd (match_kmers h m ks) = Inr m' \<and>
     fst ` set m' = fst ` set m \<union> {r. \<exists>k \<in> set ks. bloom_contains b k \<and> r \<in> set (v k)} \<and>
     (\<forall>r. set (dd_view m' r) =
           set (dd_view m r) \<union> {k \<in> set ks. bloom_contains b k \<and> r \<in> set (v k)}) \<and>
     (distinct (map fst m) \<longrightarrow> distinct (map fst m')) \<and>
     (\<forall>r. distinct (dd_view m r) \<longrightarrow> distinct (dd_view m' r))"
  using assms
proof (induction ks arbitrary: h m)
  case Nil
  then show ?case by simp
next
  case (Cons kmer ks)
  show ?case
  proof (cases "bloom_contains b kmer")
    case False
    from Cons.IH [OF Cons.prems, of m] obtain m' where m':
      "snd (match_kmers h m ks) = Inr m'"
      "fst ` set m' = fst ` set m \<union> {r. \<exists>k \<in> set ks. bloom_contains b k \<and> r \<in> set (v k)}"
      "\<forall>r. set (dd_view m' r) =
           set (dd_view m r) \<union> {k \<in> set ks. bloom_contains b k \<and> r \<in> set (v k)}"
      "distinct (map fst m) \<longrightarrow> distinct (map fst m')"
      "\<forall>r. distinct (dd_view m r) \<longrightarrow> distinct (dd_view m' r)"
      by blast
    have e: "snd (match_kmers h m (kmer # ks)) = Inr m'"
      using Cons.prems(1) False m'(1) by simp
    have k: "fst ` set m' =
       fst ` set m \<union> {r. \<exists>k \<in> set (kmer # ks). bloom_contains b k \<and> r \<in> set (v k)}"
      using m'(2) False by auto
    have s: "\<forall>r. set (dd_view m' r) =
           set (dd_view m r) \<union> {k \<in> set (kmer # ks). bloom_contains b k \<and> r \<in> set (v k)}"
      using m'(3) False by auto
    show ?thesis using e k s m'(4,5) by blast
  next
    case True
    obtain refs d where g: "dd_getitem (kmer_to_reference h) kmer = (refs, d)"
      by (cases "dd_getitem (kmer_to_reference h) kmer")
    have refs: "refs = v kmer"
      using dd_getitem_fst [of "kmer_to_reference h" kmer] g Cons.prems(2) by simp
    have dv: "dd_view d = v"
      using dd_getitem_view [of "kmer_to_reference h" kmer] g Cons.prems(2) by simp
    let ?h = "h\<lparr>kmer_to_reference := d\<rparr>"
    let ?m = "fold (\<lambda>ref m. dd_add ref kmer m) refs m"
    have p1: "bloom ?h = Some b" using Cons.prems(1) by simp
    have p2: "dd_view (kmer_to_reference ?h) = v" using dv by simp
    from Cons.IH [OF p1 p2, of ?m] obtain m' where m':
      "snd (match_kmers ?h ?m ks) = Inr m'"
      "fst ` set m' = fst ` set ?m \<union> {r. \<exists>k \<in> set ks. bloom_contains b k \<and> r \<in> set (v k)}"
      "\<forall>r. set (dd_view m' r) =
           set (dd_view ?m r) \<union> {k \<in> set ks. bloom_contains b k \<and> r \<in> set (v k)}"
      "distinct (map fst ?m) \<longrightarrow> distinct (map fst m')"
      "\<forall>r. distinct (dd_view ?m r) \<longrightarrow> distinct (dd_view m' r)"
      by blast
    have e: "snd (match_kmers h m (kmer # ks)) = Inr m'"
      using Cons.prems(1) True g m'(1) by simp
    have k: "fst ` set m' =
       fst ` set m \<union> {r. \<exists>k \<in> set (kmer # ks). bloom_contains b k \<and> r \<in> set (v k)}"
      using m'(2) True refs by (auto simp: fold_dd_add_keys)
    have s: "\<forall>r. set (dd_view m' r) =
           set (dd_view m r) \<union> {k \<in> set (kmer # ks). bloom_contains b k \<and> r \<in> set (v k)}"
      using m'(3) True refs by (auto simp: fold_dd_add_view)
    have d1: "distinct (map fst m) \<longrightarrow> distinct (map fst m')"
      using m'(4) by (simp add: fold_dd_add_distinct)
    have d2: "\<forall>r. distinct (dd_view m r) \<longrightarrow> distinct (dd_view m' r)"
      using m'(5) by (simp add: fold_dd_add_view)
    show ?thesis using e k s d1 d2 by blast
  qed
qed

lemma session_state_inv: "session_state h \<Longrightarrow> index_inv h"
proof (induction rule: session_state.induct)
  case (built hs k f db)
  show ?case by (rule load_database_inv) (simp add: handler_init_def)
next
  case (matched h query_lines)
  then show ?case by (simp add: match_sequences_inv)
next
  case reloaded
  then show ?case using load_save_inv by blast
qed

lemma format_4f_zero: "format_4f (0, 0) = ''0.0000''"
  by code_simp

lemma length_set_inter: "distinct xs \<Longrightarrow> length (set_inter xs ys) = card (set xs \<inter> set ys)"
proof -
  assume d: "distinct xs"
  have s: "set (set_inter xs ys) = set xs \<inter> set ys" by (auto simp: set_inter_def)
  have "distinct (set_inter xs ys)" using d by (simp add: set_inter_def)
  then show ?thesis using s distinct_card by fastforce
qed

lemma length_set_union:
  "distinct xs \<Longrightarrow> distinct ys \<Longrightarrow> length (set_union xs ys) = card (set xs \<union> set ys)"
proof -
  assume d: "distinct xs" "distinct ys"
  have s: "set (set_union xs ys) = set xs \<union> set ys" by (auto simp: set_union_def)
  have "distinct (set_union xs ys)" using d by (auto simp: set_union_def)
  then show ?thesis using s distinct_card by fastforce
qed

lemma length_py_set: "length (py_set xs) = card (set xs)"
  by (simp add: py_set_def length_remdups_card_conv)

lemma score_row_jacc:
  assumes "distinct q"
  shows "jacc (score_row h n q (ref, matched)) =
     format_4f (if set q \<noteq> {} \<and> set (get_reference_kmers h ref) \<noteq> {}
                then py_truediv (card (set q \<inter> set (get_reference_kmers h ref)))
                       (card (set q \<union> set (get_reference_kmers h ref)))
                else (0, 0))"
proof -
  let ?G = "get_reference_kmers h ref"
  let ?R = "py_set ?G"
  have r: "set ?R = set ?G" "distinct ?R" by (simp_all add: py_set_def)
  have a: "length (set_inter q ?R) = card (set q \<inter> set ?G)"
    using length_set_inter [OF assms, of ?R] r by simp
  have b: "length (set_union q ?R) = card (set q \<union> set (get_reference_kmers h ref))"
    using length_set_union [OF assms r(2)] r by simp
  have v: "jacc (score_row h n q (ref, matched)) =
      format_4f (if q \<noteq> [] \<and> ?R \<noteq> []
                 then py_truediv (length (set_inter q ?R)) (length (set_union q ?R))
                 else (0, 0))"
    by (simp add: score_row_def Let_def)
  consider (q) "q = []" | (g) "q \<noteq> []" "?G = []" | (both) "q \<noteq> []" "?G \<noteq> []"
    by blast
  then show ?thesis
  proof cases
    case q
    then show ?thesis unfolding v by simp
  next
    case g
    then have "?R = []" by (simp add: py_set_def)
    with g show ?thesis unfolding v by simp
  next
    case both
    then have "?R \<noteq> []" by (simp add: py_set_def)
    with both show ?thesis unfolding v a b by simp
  qed
qed

lemma score_row_qcov:
  assumes "distinct q"
  shows "qcov (score_row h n q (ref, matched)) =
     format_4f (if set q \<noteq> {} \<and> set (get_reference_kmers h ref) \<noteq> {}
                then py_truediv (card (set q \<inter> set (get_reference_kmers h ref)))
                       (card (set (get_reference_kmers h ref)))
                else (0, 0))"
proof -
  let ?G = "get_reference_kmers h ref"
  let ?R = "py_set ?G"
  have r: "set ?R = set ?G" "distinct ?R" by (simp_all add: py_set_def)
  have a: "length (set_inter q ?R) = card (set q \<inter> set ?G)"
    using length_set_inter [OF assms, of ?R] r by simp
  have b: "length ?R = card (set (get_reference_kmers h ref))"
    by (rule length_py_set)
  have v: "qcov (score_row h n q (ref, matched)) =
      format_4f (if q \<noteq> [] \<and> ?R \<noteq> []
                 then py_truediv (length (set_inter q ?R)) (length ?R)
                 else (0, 0))"
    by (simp add: score_row_def Let_def)
  consider (q) "q = []" | (g) "q \<noteq> []" "?G = []" | (both) "q \<noteq> []" "?G \<noteq> []"
    by blast
  then show ?thesis
  proof cases
    case q
    then show ?thesis unfolding v by simp
  next
    case g
    then have "?R = []" by (simp add: py_set_def)
    with g show ?thesis unfolding v by simp
  next
    case both
    then have "?R \<noteq> []" by (simp add: py_set_def)
    with both show ?thesis unfolding v a b by simp
  qed
qed

lemma score_row_append:
  assumes "empties e"
  shows "score_row (h\<lparr>kmer_to_reference := kmer_to_reference h @ e\<rparr>) n q rm = score_row h n q rm"
proof -
  have "\<And>r. get_reference_kmers (h\<lparr>kmer_to_reference := kmer_to_reference h @ e\<rparr>) r =
        get_reference_kmers h r"
    using get_reference_kmers_append [OF assms, where h = h and d = "kmer_to_reference h"] by simp
  then show ?thesis by (simp add: score_row_def split: prod.splits)
qed

lemma dd_view_Nil: "dd_view [] k = []"
  by (simp add: dd_view_def)

text \<open>What a row of \<open>match_sequence\<close> is.\<close>

lemma match_sequence_row:
  assumes "snd (match_sequence h name s) = Inr rows" and "r \<in> set rows"
  shows "\<exists>b ref matched.
           bloom h = Some b \<and>
           r = score_row h name (py_set (sm_extract_kmers (kmer_size h) s)) (ref, matched) \<and>
           distinct matched \<and> matched \<noteq> [] \<and>
           set matched = {k \<in> set (sm_extract_kmers (kmer_size h) s).
                            bloom_contains b k \<and> ref \<in> set (dd_view (kmer_to_reference h) k)}"
proof -
  let ?q = "py_set (sm_extract_kmers (kmer_size h) s)"
  have q: "set ?q = set (sm_extract_kmers (kmer_size h) s)" by (simp add: py_set_def)
  obtain h' res where mk: "match_kmers h [] ?q = (h', res)" by (cases "match_kmers h [] ?q")
  obtain m where res: "res = Inr m" and rows: "rows = map (score_row h' name ?q) m"
    using assms(1) mk by (cases res) (auto simp: match_sequence_def Let_def)
  obtain e where e: "h' = h\<lparr>kmer_to_reference := kmer_to_reference h @ e\<rparr>" "empties e"
    using match_kmers_state [of h "[]" ?q] mk by auto
  obtain rm where rm: "rm \<in> set m" "r = score_row h' name ?q rm"
    using assms(2) rows by auto
  obtain ref matched where p: "rm = (ref, matched)" by (cases rm)
  have r: "r = score_row h name ?q (ref, matched)"
    using rm(2) p e score_row_append [OF e(2)] by simp
  have ne: "?q \<noteq> []"
  proof
    assume "?q = []"
    then have "m = []" using mk res by simp
    with rm(1) show False by simp
  qed
  obtain b where b: "bloom h = Some b"
  proof (cases "bloom h")
    case None
    obtain k ks where "?q = k # ks" using ne by (cases ?q) auto
    then have "snd (match_kmers h [] ?q) = Inl TypeError" using None by simp
    with mk res show ?thesis by simp
  next
    case (Some b)
    then show ?thesis by (rule that)
  qed
  from match_kmers_result [OF b refl, where m = "[]" and ks = ?q] mk res
  have k: "fst ` set m = {r. \<exists>k \<in> set ?q. bloom_contains b k \<and>
               r \<in> set (dd_view (kmer_to_reference h) k)}"
    and v: "\<forall>r. set (dd_view m r) = {k \<in> set ?q. bloom_contains b k \<and>
               r \<in> set (dd_view (kmer_to_reference h) k)}"
    and dk: "distinct (map fst m)"
    and dv: "\<forall>r. distinct (dd_view m r)"
    by (simp_all add: dd_view_Nil)
  have "map_of m ref = Some matched" using rm(1) p dk by simp
  then have mv: "dd_view m ref = matched" by (simp add: dd_view_def)
  have "ref \<in> fst ` set m" using rm(1) p by force
  then have "\<exists>k \<in> set ?q. bloom_contains b k \<and> ref \<in> set (dd_view (kmer_to_reference h) k)"
    using k by simp
  then have "set (dd_view m ref) \<noteq> {}" using v by auto
  then have "matched \<noteq> []" using mv by auto
  moreover have "distinct matched" using dv mv by auto
  moreover have "set matched = {k \<in> set (sm_extract_kmers (kmer_size h) s).
        bloom_contains b k \<and> ref \<in> set (dd_view (kmer_to_reference h) k)}"
    using v mv q by auto
  ultimately show ?thesis using b r by blast
qed

section \<open>Rows, their references and the state after matching\<close>

lemma score_row_reference [simp]: "reference (score_row h n q (ref, m)) = ref"
  by (simp add: score_row_def Let_def)

lemma score_row_matched [simp]: "matched_kmers (score_row h n q (ref, m)) = length m"
  by (simp add: score_row_def Let_def)

lemma get_reference_kmers_set:
  assumes "distinct (map fst (kmer_to_reference h))"
  shows "set (get_reference_kmers h ref) = {k. ref \<in> set (dd_view (kmer_to_reference h) k)}"
proof -
  have "\<And>k refs. ((k, refs) \<in> set (kmer_to_reference h)) =
                   (map_of (kmer_to_reference h) k = Some refs)"
    using assms by simp
  then show ?thesis
    by (auto simp: get_reference_kmers_def dd_view_def split: option.splits) force
qed

lemma match_kmers_bloom: "bloom (fst (match_kmers h m ks)) = bloom h"
proof -
  obtain e where "fst (match_kmers h m ks) = h\<lparr>kmer_to_reference := kmer_to_reference h @ e\<rparr>"
    using match_kmers_state [of h m ks] by blast
  then show ?thesis by simp
qed

lemma match_sequence_bloom: "bloom (fst (match_sequence h n s)) = bloom h"
  using match_kmers_bloom [of h "[]" "py_set (sm_extract_kmers (kmer_size h) s)"]
  by (auto simp: match_sequence_def Let_def split: prod.splits sum.splits)

lemma match_records_bloom: "bloom (fst (match_records h qs)) = bloom h"
proof (induction qs arbitrary: h)
  case Nil
  then show ?case by simp
next
  case (Cons q qs)
  obtain h' r where m: "match_sequence h (fst q) (snd q) = (h', r)"
    by (cases "match_sequence h (fst q) (snd q)")
  have b: "bloom h' = bloom h"
    using match_sequence_bloom [of h "fst q" "snd q"] m by simp
  show ?case
  proof (cases r)
    case (Inl e)
    with m b show ?thesis by simp
  next
    case (Inr rows)
    with m b Cons.IH [of h'] show ?thesis by (auto split: prod.splits)
  qed
qed

lemma match_sequences_bloom: "bloom (fst (match_sequences h q)) = bloom h"
  by (simp add: match_sequences_def match_records_bloom)

section \<open>The example, evaluated\<close>

lemma four_Suc: "Suc (Suc (Suc (Suc 0))) = 4"
  by simp

lemma bitlen_4: "bitlen 4 = 3"
  by (simp add: bitlen.simps)

lemma py_truediv_4_4: "py_truediv 4 4 = (4503599627370496, - 52)"
  by (simp add: py_truediv_def floor_log2_def bitlen_4 round_half_even_div_def Let_def)

lemma digits_0: "digits 0 = ''0''"
  by (simp add: digits.simps)

lemma digits_Suc_0: "digits (Suc 0) = ''1''"
  by (simp add: digits.simps)

lemma format_4f_one: "format_4f (4503599627370496, - 52) = ''1.0000''"
  by (simp add: format_4f_def round_half_even_div_def Let_def digits_0 digits_Suc_0
      numeral_3_eq_3)

lemma example_catalog:
  "kmer_to_reference example_index =
     [(''ACG'', [''ref1'']), (''CGT'', [''ref1'']), (''GTA'', [''ref1'']), (''TAC'', [''ref1''])]"
  by code_simp

lemma example_kmer_size: "kmer_size example_index = 3"
  by code_simp

lemma example_count: "reference_kmer_count example_index ''ref1'' = Some 6"
  by code_simp

lemma example_query_kmers:
  "py_set (sm_extract_kmers 3 ''ACGTACGT'') = [''GTA'', ''TAC'', ''ACG'', ''CGT'']"
  by code_simp

lemma example_match_kmers:
  "snd (match_kmers example_index [] [''GTA'', ''TAC'', ''ACG'', ''CGT'']) =
     Inr [(''ref1'', [''GTA'', ''TAC'', ''ACG'', ''CGT''])]"
  by code_simp

lemma example_match_catalog:
  "kmer_to_reference (fst (match_kmers example_index [] [''GTA'', ''TAC'', ''ACG'', ''CGT''])) =
     [(''ACG'', [''ref1'']), (''CGT'', [''ref1'']), (''GTA'', [''ref1'']), (''TAC'', [''ref1''])]"
  by code_simp

lemma example_match_count:
  "reference_kmer_count (fst (match_kmers example_index [] [''GTA'', ''TAC'', ''ACG'', ''CGT'']))
     ''ref1'' = Some 6"
  by code_simp

lemma example_match_gca:
  "reference_gca_map (fst (match_kmers example_index [] [''GTA'', ''TAC'', ''ACG'', ''CGT'']))
     ''ref1'' = Some ''Unknown''"
  by code_simp

lemma example_score:
  assumes "kmer_to_reference h =
     [(''ACG'', [''ref1'']), (''CGT'', [''ref1'']), (''GTA'', [''ref1'']), (''TAC'', [''ref1''])]"
    and "reference_kmer_count h ''ref1'' = Some 6"
    and "reference_gca_map h ''ref1'' = Some ''Unknown''"
  shows "score_row h ''q'' [''GTA'', ''TAC'', ''ACG'', ''CGT'']
           (''ref1'', [''GTA'', ''TAC'', ''ACG'', ''CGT'']) = example_row"
proof -
  have g: "py_set (get_reference_kmers h ''ref1'') = [''ACG'', ''CGT'', ''GTA'', ''TAC'']"
    using assms(1) by (simp add: get_reference_kmers_def py_set_def)
  have i: "length (set_inter [''GTA'', ''TAC'', ''ACG'', ''CGT''] [''ACG'', ''CGT'', ''GTA'', ''TAC'']) = 4"
    by (simp add: set_inter_def)
  have u: "length (set_union [''GTA'', ''TAC'', ''ACG'', ''CGT''] [''ACG'', ''CGT'', ''GTA'', ''TAC'']) = 4"
    by (simp add: set_union_def)
  show ?thesis
    unfolding score_row_def g Let_def i u prod.case
    using assms(2,3)
    by (simp add: example_row_def py_truediv_4_4 format_4f_one four_Suc)
qed

lemma example_match:
  "snd (match_sequence example_index ''q'' ''ACGTACGT'') = Inr [example_row]"
proof -
  let ?Q = "[''GTA'', ''TAC'', ''ACG'', ''CGT'']"
  obtain h' where m: "match_kmers example_index [] ?Q = (h', Inr [(''ref1'', ?Q)])"
    using example_match_kmers by (cases "match_kmers example_index [] ?Q") simp
  have s: "score_row h' ''q'' ?Q (''ref1'', ?Q) = example_row"
    using example_match_catalog example_match_count example_match_gca m
    by (intro example_score) simp_all
  show ?thesis
    unfolding match_sequence_def Let_def example_kmer_size example_query_kmers m
    by (simp add: s)
qed

lemma example_query: "read_fasta_file [''>q'', ''ACGTACGT''] = [(''q'', ''ACGTACGT'')]"
  by code_simp

lemma example_match_sequences:
  "snd (match_sequences example_index [''>q'', ''ACGTACGT'']) = ([example_row], None)"
proof -
  obtain h' where m: "match_sequence example_index ''q'' ''ACGTACGT'' = (h', Inr [example_row])"
    using example_match by (cases "match_sequence example_index ''q'' ''ACGTACGT''") simp
  show ?thesis
    by (simp add: match_sequences_def example_query m)
qed

lemma example_session: "session_state example_index"
  unfolding example_index_def by (rule session_state.built)

lemma example_reference_kmers:
  "get_reference_kmers example_index ''ref1'' = [''ACG'', ''CGT'', ''GTA'', ''TAC'']"
  by (simp add: get_reference_kmers_def example_catalog)

lemma example_query_set:
  "set (sm_extract_kmers 3 ''ACGTACGT'') = set [''ACG'', ''CGT'', ''GTA'', ''TAC'']"
proof -
  have "set (sm_extract_kmers 3 ''ACGTACGT'') = set (py_set (sm_extract_kmers 3 ''ACGTACGT''))"
    by (simp add: py_set_def)
  then show ?thesis unfolding example_query_kmers by auto
qed

lemma example_card: "card (set [''ACG'', ''CGT'', ''GTA'', ''TAC'']) = 4"
  by simp

lemma example_blooms_agree:
  "list_all (\<lambda>k. bloom_contains example_bloom k = bloom_contains noisy_bloom k)
     [''ACG'', ''CGT'', ''GTA'', ''TAC'']"
  by code_simp

lemma noisy_bloom_differs:
  "\<not> bloom_contains example_bloom ''NNN'' \<and> bloom_contains noisy_bloom ''NNN''"
  by code_simp

lemma example_phantom:
  "kmer_to_reference (fst (match_sequences example_index [''>q'', ''TTTT''])) =
     [(''ACG'', [''ref1'']), (''CGT'', [''ref1'']), (''GTA'', [''ref1'']), (''TAC'', [''ref1'']),
      (''TTT'', [])]"
  by code_simp

section \<open>The persistence round trip\<close>




section \<open>Scores\<close>

text \<open>
  C2. For every row that \<open>_match_sequence\<close> writes, with \<open>Q\<close> the set of k-mers of the
  query and \<open>R\<close> the set of k-mers catalogued for the row's reference: if \<open>Q\<close> or \<open>R\<close> is
  empty both scores are printed as \<^verbatim>\<open>0.0000\<close>; otherwise Jacc is the double
  \<open>|Q \<inter> R| / |Q \<union> R|\<close> and Qcov the double \<open>|Q \<inter> R| / |R|\<close>, each printed with four
  decimal places; and the row's reference has at least one matched k-mer.
\<close>

theorem match_sequence_scores:
  assumes "snd (match_sequence h name s) = Inr rows" and "r \<in> set rows"
  shows "let Q = set (sm_extract_kmers (kmer_size h) s);
             R = set (get_reference_kmers h (reference r))
         in (Q = {} \<or> R = {} \<longrightarrow> jacc r = ''0.0000'' \<and> qcov r = ''0.0000'') \<and>
            (Q \<noteq> {} \<and> R \<noteq> {} \<longrightarrow>
               jacc r = format_4f (py_truediv (card (Q \<inter> R)) (card (Q \<union> R))) \<and>
               qcov r = format_4f (py_truediv (card (Q \<inter> R)) (card R))) \<and>
            1 \<le> matched_kmers r"
proof -
  let ?q = "py_set (sm_extract_kmers (kmer_size h) s)"
  obtain b ref matched where
    r: "r = score_row h name ?q (ref, matched)" and ne: "matched \<noteq> []"
    using match_sequence_row [OF assms] by blast
  have q: "distinct ?q" "set ?q = set (sm_extract_kmers (kmer_size h) s)"
    by (simp_all add: py_set_def)
  have ref: "reference r = ref" using r by simp
  have m: "1 \<le> matched_kmers r" using r ne by (simp add: Suc_le_eq)
  show ?thesis
    using score_row_jacc [OF q(1), of h name ref matched]
      score_row_qcov [OF q(1), of h name ref matched] m
    unfolding Let_def ref q(2) r [symmetric]
    by (simp add: format_4f_zero)
qed

theorem match_sequence_scores_witness:
  "jacc example_row = format_4f (py_truediv 4 4) \<and>
   qcov example_row = format_4f (py_truediv 4 4) \<and>
   1 \<le> matched_kmers example_row"
proof -
  have r: "reference example_row = ''ref1''" by (simp add: example_row_def)
  have "example_row \<in> set [example_row]" by simp
  from match_sequence_scores [OF example_match this]
  show ?thesis
    unfolding Let_def r example_kmer_size example_query_set example_reference_kmers
    using example_card by (simp add: four_Suc)
qed

section \<open>False positives of the membership set\<close>

text \<open>
  C4. Let two membership sets answer alike on every key of the reverse index, and
  arbitrarily elsewhere. Then matching any query stream writes the same rows under both,
  and every k-mer in the matched set of a reference is a key of the reverse index: a k-mer
  without an entry contributes to no row, whatever its probe says.
\<close>

theorem false_positives_are_neutral:
  assumes "\<forall>k \<in> fst ` set (kmer_to_reference h). bloom_contains b1 k = bloom_contains b2 k"
  shows "snd (match_sequences (h\<lparr>bloom := Some b1\<rparr>) q) =
         snd (match_sequences (h\<lparr>bloom := Some b2\<rparr>) q) \<and>
         (\<forall>m rm kmer. snd (match_kmers (h\<lparr>bloom := Some b1\<rparr>) [] ks) = Inr m \<longrightarrow>
              rm \<in> set m \<longrightarrow> kmer \<in> set (snd rm) \<longrightarrow>
              kmer \<in> fst ` set (kmer_to_reference h))"
proof
  have "same_index (kmer_to_reference h) (h\<lparr>bloom := Some b1\<rparr>) (h\<lparr>bloom := Some b2\<rparr>)"
    using assms by (simp add: same_index_def)
  then show "snd (match_sequences (h\<lparr>bloom := Some b1\<rparr>) q) =
         snd (match_sequences (h\<lparr>bloom := Some b2\<rparr>) q)"
    by (rule match_sequences_cong)
next
  let ?h = "h\<lparr>bloom := Some b1\<rparr>"
  let ?d = "kmer_to_reference h"
  show "\<forall>m rm kmer. snd (match_kmers ?h [] ks) = Inr m \<longrightarrow>
              rm \<in> set m \<longrightarrow> kmer \<in> set (snd rm) \<longrightarrow> kmer \<in> fst ` set ?d"
  proof (intro allI impI)
    fix m rm kmer
    assume m: "snd (match_kmers ?h [] ks) = Inr m" and rm: "rm \<in> set m"
      and k: "kmer \<in> set (snd rm)"
    have b: "bloom ?h = Some b1" by simp
    have v: "dd_view (kmer_to_reference ?h) = dd_view ?d" by simp
    from match_kmers_result [OF b v, where m = "[]" and ks = ks] m
    have s: "\<forall>r. set (dd_view m r) =
                {k \<in> set ks. bloom_contains b1 k \<and> r \<in> set (dd_view ?d k)}"
      and dk: "distinct (map fst m)"
      by (simp_all add: dd_view_Nil)
    have "map_of m (fst rm) = Some (snd rm)" using rm dk by simp
    then have e: "dd_view m (fst rm) = snd rm" by (simp add: dd_view_def)
    have "set (snd rm) = {k \<in> set ks. bloom_contains b1 k \<and> fst rm \<in> set (dd_view ?d k)}"
      using s [rule_format, of "fst rm"] e by simp
    then have "fst rm \<in> set (dd_view ?d kmer)" using k by blast
    then have "dd_view ?d kmer \<noteq> []" by auto
    then show "kmer \<in> fst ` set ?d" using dd_view_not_key by blast
  qed
qed

theorem false_positives_are_neutral_witness:
  "snd (match_sequences (example_index\<lparr>bloom := Some example_bloom\<rparr>) [''>q'', ''NNNN'']) =
   snd (match_sequences (example_index\<lparr>bloom := Some noisy_bloom\<rparr>) [''>q'', ''NNNN'']) \<and>
   \<not> bloom_contains example_bloom ''NNN'' \<and> bloom_contains noisy_bloom ''NNN''"
proof -
  have "\<forall>k \<in> fst ` set (kmer_to_reference example_index).
          bloom_contains example_bloom k = bloom_contains noisy_bloom k"
    using example_blooms_agree by (simp add: example_catalog)
  from false_positives_are_neutral [OF this, of "[''>q'', ''NNNN'']" "[]"]
  show ?thesis using noisy_bloom_differs by simp
qed

section \<open>The loaded state during matching\<close>

text \<open>
  C5. Matching is to leave the loaded index as it was, the key set of the reverse index
  included. \<open>_match_sequence\<close> reads \<open>kmer_to_reference[kmer]\<close> from a \<open>defaultdict\<close>
  for every k-mer that probes as present, where its neighbours read
  \<open>reference_kmer_count\<close> and \<open>reference_gca_map\<close> with \<open>get\<close>. On the example index
  the query \<^verbatim>\<open>TTTT\<close> has the k-mer \<^verbatim>\<open>TTT\<close>, a false positive of the filter: no row is
  written, and the reverse index has the new key \<^verbatim>\<open>TTT\<close> afterwards.
\<close>

theorem matching_inserts_key:
  "map fst (kmer_to_reference example_index) = [''ACG'', ''CGT'', ''GTA'', ''TAC''] \<and>
   map fst (kmer_to_reference (fst (match_sequences example_index [''>q'', ''TTTT'']))) =
     [''ACG'', ''CGT'', ''GTA'', ''TAC'', ''TTT''] \<and>
   snd (match_sequences example_index [''>q'', ''TTTT'']) = ([], None)"
proof -
  have "snd (match_sequences example_index [''>q'', ''TTTT'']) = ([], None)" by code_simp
  then show ?thesis by (simp add: example_catalog example_phantom)
qed

section \<open>The worked example of the specification\<close>

text \<open>
  C6. The index built over the single reference \<^verbatim>\<open>ref1\<close> with body \<^verbatim>\<open>ACGTACGT\<close> and
  \<open>k = 3\<close> has the raw count 6 for \<^verbatim>\<open>ref1\<close> and the reference k-mer set
  \<open>{ACG, CGT, GTA, TAC}\<close> of size 4; matching the query \<^verbatim>\<open>ACGTACGT\<close> writes exactly one
  row, for \<^verbatim>\<open>ref1\<close>, with 4 input k-mers, 4 matched k-mers, 6 reference k-mers and both
  scores \<^verbatim>\<open>1.0000\<close>.
\<close>

theorem example_ref1:
  "reference_kmer_count example_index ''ref1'' = Some 6 \<and>
   set (get_reference_kmers example_index ''ref1'') = {''ACG'', ''CGT'', ''GTA'', ''TAC''} \<and>
   card (set (get_reference_kmers example_index ''ref1'')) = 4 \<and>
   snd (match_sequences example_index [''>q'', ''ACGTACGT'']) =
     ([\<lparr>sequence_name = ''q'', total_input_kmers = 4, reference = ''ref1'',
        matched_kmers = 4, reference_total_kmers = 6, gca_name = ''Unknown'',
        jacc = ''1.0000'', qcov = ''1.0000''\<rparr>], None)"
  using example_card
  by (simp add: example_count example_reference_kmers example_match_sequences
      example_row_def [symmetric])

section \<open>The capacity estimate and the k-mers ingested\<close>

lemma add_kmers_loop_kmer_size: "kmer_size (fst (add_kmers_loop h r ks)) = kmer_size h"
proof (induction ks arbitrary: h)
  case Nil
  then show ?case by simp
next
  case (Cons k ks)
  show ?case
  proof (cases "bloom h")
    case None
    then show ?thesis by simp
  next
    case (Some b)
    show ?thesis
    proof (cases "bloom_add b k")
      case (Inl e)
      with Some show ?thesis by simp
    next
      case (Inr b')
      with Some Cons.IH [of "h\<lparr>bloom := Some b',
          kmer_to_reference := dd_add k r (kmer_to_reference h)\<rparr>"]
      show ?thesis by simp
    qed
  qed
qed

lemma add_kmers_to_bloom_kmer_size:
  "kmer_size (fst (add_kmers_to_bloom h s r)) = kmer_size h"
  using add_kmers_loop_kmer_size [of h r "extract_kmers (kmer_size h) s"]
  by (auto simp: add_kmers_to_bloom_def Let_def split: prod.splits option.splits)

lemma add_kmers_to_bloom_count:
  "snd (add_kmers_to_bloom h s r) = Inr n \<Longrightarrow> n = count_kmers_in_sequence h s"
  by (auto simp: add_kmers_to_bloom_def Let_def count_kmers_in_sequence_def
      length_extract_kmers split: prod.splits option.splits)

lemma ingest_record_kmer_size:
  "kmer_size (ps_handler (fst (ingest_record st))) = kmer_size (ps_handler st)"
  using add_kmers_to_bloom_kmer_size
    [of "ps_handler st" "concat (sequence_data st)" "the (current_reference st)"]
  by (auto simp: ingest_record_def split: prod.splits sum.splits)

lemma ingest_record_count:
  assumes "ingest_record st = (st', None)"
  shows "actual_kmer_count st' =
           actual_kmer_count st + count_kmers_in_sequence (ps_handler st) (concat (sequence_data st)) \<and>
         current_reference st' = current_reference st \<and>
         sequence_data st' = sequence_data st"
proof -
  obtain h' r where a: "add_kmers_to_bloom (ps_handler st) (concat (sequence_data st))
      (the (current_reference st)) = (h', r)"
    by (cases "add_kmers_to_bloom (ps_handler st) (concat (sequence_data st))
      (the (current_reference st))")
  show ?thesis
  proof (cases r)
    case (Inl e)
    with a assms show ?thesis by (simp add: ingest_record_def)
  next
    case (Inr n)
    have "n = count_kmers_in_sequence (ps_handler st) (concat (sequence_data st))"
      using add_kmers_to_bloom_count [of "ps_handler st" "concat (sequence_data st)"
          "the (current_reference st)" n] a Inr by simp
    with a Inr assms show ?thesis by (auto simp: ingest_record_def)
  qed
qed

lemma ingest_record_mono: "actual_kmer_count st \<le> actual_kmer_count (fst (ingest_record st))"
  by (auto simp: ingest_record_def add_kmers_to_bloom_def Let_def
      split: prod.splits sum.splits option.splits)

lemma start_record_fields:
  "kmer_size (ps_handler (start_record g line st)) = kmer_size (ps_handler st) \<and>
   actual_kmer_count (start_record g line st) = actual_kmer_count st \<and>
   sequence_data (start_record g line st) = sequence_data st \<and>
   current_reference (start_record g line st) = Some (fst (extract_reference_name line))"
  by (simp add: start_record_def split: prod.splits)

lemma count_kmers_cong:
  "kmer_size h = kmer_size h' \<Longrightarrow> count_kmers_in_sequence h = count_kmers_in_sequence h'"
  by (rule ext) (simp add: count_kmers_in_sequence_def)

lemma count_kmers_empty: "1 \<le> kmer_size h \<Longrightarrow> count_kmers_in_sequence h [] = 0"
  by (simp add: count_kmers_in_sequence_def)

lemma estimate_kmers_cong:
  "kmer_size h = kmer_size h' \<Longrightarrow> estimate_kmers h f = estimate_kmers h' f"
proof -
  assume k: "kmer_size h = kmer_size h'"
  have c: "count_kmers_in_sequence h = count_kmers_in_sequence h'"
    by (rule count_kmers_cong [OF k])
  have "estimate_step h = estimate_step h'"
    by (rule ext, rule ext) (simp add: estimate_step_def c Let_def split: prod.splits cong: if_cong)
  then show ?thesis by (simp add: estimate_kmers_def c split: prod.splits option.splits)
qed

lemma process_lines_kmer_size:
  "kmer_size (ps_handler (fst (process_lines g ls st))) = kmer_size (ps_handler st)"
proof (induction ls arbitrary: st)
  case Nil
  then show ?case by simp
next
  case (Cons raw rest)
  show ?case
  proof (cases "startswith (strip raw) ''>''")
    case False
    with Cons.IH [of "st\<lparr>sequence_data := sequence_data st @ [strip raw]\<rparr>"]
    show ?thesis by (simp add: Let_def)
  next
    case True
    show ?thesis
    proof (cases "has_record st")
      case False
      with Cons.IH [of "start_record g (strip raw) st"] True start_record_fields [of g "strip raw" st]
      show ?thesis by (simp add: Let_def)
    next
      case hr: True
      obtain st' r where ir: "ingest_record st = (st', r)" by (cases "ingest_record st")
      have w: "kmer_size (ps_handler st') = kmer_size (ps_handler st)"
        using ingest_record_kmer_size [of st] ir by simp
      show ?thesis
      proof (cases r)
        case (Some e)
        with True hr ir w show ?thesis by (simp add: Let_def)
      next
        case None
        have "kmer_size (ps_handler (start_record g (strip raw) (st'\<lparr>sequence_data := []\<rparr>))) =
              kmer_size (ps_handler st)"
          using start_record_fields [of g "strip raw" "st'\<lparr>sequence_data := []\<rparr>"] w by simp
        with Cons.IH [of "start_record g (strip raw) (st'\<lparr>sequence_data := []\<rparr>)"]
          True hr ir None
        show ?thesis by (simp add: Let_def)
      qed
    qed
  qed
qed

lemma process_lines_mono:
  "actual_kmer_count st \<le> actual_kmer_count (fst (process_lines g ls st))"
proof (induction ls arbitrary: st)
  case Nil
  then show ?case by simp
next
  case (Cons raw rest)
  show ?case
  proof (cases "startswith (strip raw) ''>''")
    case False
    with Cons.IH [of "st\<lparr>sequence_data := sequence_data st @ [strip raw]\<rparr>"]
    show ?thesis by (simp add: Let_def)
  next
    case True
    show ?thesis
    proof (cases "has_record st")
      case False
      with Cons.IH [of "start_record g (strip raw) st"] True start_record_fields [of g "strip raw" st]
      show ?thesis by (simp add: Let_def)
    next
      case hr: True
      obtain st' r where ir: "ingest_record st = (st', r)" by (cases "ingest_record st")
      have w: "actual_kmer_count st \<le> actual_kmer_count st'"
        using ingest_record_mono [of st] ir by simp
      show ?thesis
      proof (cases r)
        case (Some e)
        with True hr ir w show ?thesis by (simp add: Let_def)
      next
        case None
        have "actual_kmer_count st \<le>
              actual_kmer_count (start_record g (strip raw) (st'\<lparr>sequence_data := []\<rparr>))"
          using start_record_fields [of g "strip raw" "st'\<lparr>sequence_data := []\<rparr>"] w by simp
        with Cons.IH [of "start_record g (strip raw) (st'\<lparr>sequence_data := []\<rparr>)"]
          True hr ir None
        show ?thesis by (simp add: Let_def)
      qed
    qed
  qed
qed

lemma process_lines_estimate:
  assumes "1 \<le> kmer_size (ps_handler st)"
    and "list_all header_named ls"
    and "started st"
    and "process_lines g ls st = (st', None)"
    and "kmer_size h = kmer_size (ps_handler st)"
  shows "fold (estimate_step h) ls (c, concat (sequence_data st)) =
           (c + (actual_kmer_count st' - actual_kmer_count st), concat (sequence_data st')) \<and>
         started st'"
  using assms
proof (induction ls arbitrary: st c)
  case Nil
  then show ?case by simp
next
  case (Cons raw rest)
  let ?line = "strip raw"
  have hn: "header_named raw" and rest: "list_all header_named rest"
    using Cons.prems(2) by simp_all
  show ?case
  proof (cases "startswith ?line ''>''")
    case False
    let ?st1 = "st\<lparr>sequence_data := sequence_data st @ [?line]\<rparr>"
    have p: "process_lines g rest ?st1 = (st', None)"
      using Cons.prems(4) False by (simp add: Let_def)
    have s1: "started ?st1" using Cons.prems(3) by (simp add: started_def)
    have e: "estimate_step h raw (c, concat (sequence_data st)) =
               (c, concat (sequence_data ?st1))"
      using False by (simp add: estimate_step_def Let_def)
    from Cons.IH [of ?st1 c, OF _ rest s1 p] Cons.prems(1,5) e
    show ?thesis by simp
  next
    case True
    then have ne: "?line \<noteq> []" by (auto simp: startswith_def)
    have nm: "fst (extract_reference_name ?line) \<noteq> []"
      using hn True by (simp add: header_named_def)
    have e: "estimate_step h raw (c, concat (sequence_data st)) =
               (c + count_kmers_in_sequence h (concat (sequence_data st)), [])"
      using True ne by (simp add: estimate_step_def Let_def)
    have ch: "count_kmers_in_sequence h = count_kmers_in_sequence (ps_handler st)"
      by (rule count_kmers_cong [OF Cons.prems(5)])
    show ?thesis
    proof (cases "has_record st")
      case False
      let ?st1 = "start_record g ?line st"
      have sd: "sequence_data st = []"
        using False Cons.prems(3) by (auto simp: has_record_def started_def)
      have p: "process_lines g rest ?st1 = (st', None)"
        using Cons.prems(4) True False by (simp add: Let_def)
      have f: "kmer_size (ps_handler ?st1) = kmer_size (ps_handler st)"
        "actual_kmer_count ?st1 = actual_kmer_count st"
        "sequence_data ?st1 = []"
        "started ?st1"
        using start_record_fields [of g ?line st] sd nm by (simp_all add: started_def)
      have z: "count_kmers_in_sequence h [] = 0"
        using Cons.prems(1,5) by (simp add: count_kmers_in_sequence_def)
      from Cons.IH [of ?st1 c, OF _ rest f(4) p] Cons.prems(1,5) f e sd z
      show ?thesis by simp
    next
      case hr: True
      obtain st1 r where ir: "ingest_record st = (st1, r)" by (cases "ingest_record st")
      have r: "r = None"
        using Cons.prems(4) True hr ir by (cases r) (simp_all add: Let_def)
      let ?st2 = "start_record g ?line (st1\<lparr>sequence_data := []\<rparr>)"
      have p: "process_lines g rest ?st2 = (st', None)"
        using Cons.prems(4) True hr ir r by (simp add: Let_def)
      have a1: "actual_kmer_count st1 =
          actual_kmer_count st + count_kmers_in_sequence h (concat (sequence_data st))"
        using ingest_record_count [of st st1] ir r ch by simp
      have k1: "kmer_size (ps_handler st1) = kmer_size (ps_handler st)"
        using ingest_record_kmer_size [of st] ir by simp
      have f: "kmer_size (ps_handler ?st2) = kmer_size (ps_handler st)"
        "actual_kmer_count ?st2 = actual_kmer_count st1"
        "sequence_data ?st2 = []"
        "started ?st2"
        using start_record_fields [of g ?line "st1\<lparr>sequence_data := []\<rparr>"] k1 nm
        by (simp_all add: started_def)
      from Cons.IH [of ?st2 "c + count_kmers_in_sequence h (concat (sequence_data st))",
          OF _ rest f(4) p] Cons.prems(1,5) f e a1
      show ?thesis by simp
    qed
  qed
qed

lemma process_file_estimate:
  assumes "1 \<le> kmer_size h" and "well_formed f"
    and "snd (snd (process_file_kmers h p f)) = Inr n"
  shows "n = estimate_kmers h f"
proof -
  obtain ls where f: "f = (ls, None)"
    using assms(2) by (cases f) (simp add: well_formed_def)
  let ?g = "extract_gca_from_filename p"
  let ?st0 = "\<lparr>ps_handler = h, actual_kmer_count = 0, current_reference = None,
                   sequence_data = [], warnings = []\<rparr>"
  have z: "count_kmers_in_sequence h [] = 0"
    using assms(1) by (simp add: count_kmers_in_sequence_def)
  show ?thesis
  proof (cases ls)
    case Nil
    then show ?thesis
      using f assms(3) z by (simp add: process_file_kmers_def estimate_kmers_def has_record_def)
  next
    case (Cons raw rest)
    have hd: "startswith (strip raw) ''>''" and la: "list_all header_named (raw # rest)"
      using assms(2) f Cons by (simp_all add: well_formed_def)
    from hd have ne: "strip raw \<noteq> []" by (auto simp: startswith_def)
    let ?st1 = "start_record ?g (strip raw) ?st0"
    have nm: "fst (extract_reference_name (strip raw)) \<noteq> []"
      using la hd by (simp add: header_named_def)
    have f1: "kmer_size (ps_handler ?st1) = kmer_size h" "actual_kmer_count ?st1 = 0"
      "sequence_data ?st1 = []" "started ?st1"
      using start_record_fields [of ?g "strip raw" ?st0] nm by (simp_all add: started_def)
    have pl: "process_lines ?g ls ?st0 = process_lines ?g rest ?st1"
      using Cons hd by (simp add: Let_def has_record_def)
    obtain st' r where p1: "process_lines ?g rest ?st1 = (st', r)"
      by (cases "process_lines ?g rest ?st1")
    have r: "r = None"
      using assms(3) f pl p1 by (cases r) (simp_all add: process_file_kmers_def)
    have rest: "list_all header_named rest" using la by simp
    have k1: "1 \<le> kmer_size (ps_handler ?st1)" using f1(1) assms(1) by simp
    have p2: "process_lines ?g rest ?st1 = (st', None)" using p1 r by simp
    have e: "fold (estimate_step h) rest (0, concat (sequence_data ?st1)) =
               (0 + (actual_kmer_count st' - actual_kmer_count ?st1), concat (sequence_data st')) \<and>
             started st'"
      by (rule process_lines_estimate [OF k1 rest f1(4) p2 f1(1) [symmetric]])
    have e0: "estimate_step h raw (0, []) = (0, [])"
      using hd ne z by (simp add: estimate_step_def Let_def)
    have est: "estimate_kmers h f =
        actual_kmer_count st' + count_kmers_in_sequence h (concat (sequence_data st'))"
      using f Cons e e0 f1 by (simp add: estimate_kmers_def)
    have k': "kmer_size (ps_handler st') = kmer_size h"
      using process_lines_kmer_size [of ?g rest ?st1] p1 f1 by simp
    show ?thesis
    proof (cases "has_record st'")
      case True
      obtain st2 r2 where ir: "ingest_record st' = (st2, r2)" by (cases "ingest_record st'")
      have r2: "r2 = None"
        using assms(3) f pl p1 r True ir by (cases r2) (simp_all add: process_file_kmers_def)
      have "n = actual_kmer_count st2"
        using assms(3) f pl p1 r True ir r2 by (simp add: process_file_kmers_def)
      moreover have "actual_kmer_count st2 = actual_kmer_count st' +
          count_kmers_in_sequence (ps_handler st') (concat (sequence_data st'))"
        using ingest_record_count [of st' st2] ir r2 by simp
      moreover have "count_kmers_in_sequence (ps_handler st') = count_kmers_in_sequence h"
        by (rule count_kmers_cong [OF k'])
      ultimately show ?thesis using est by simp
    next
      case False
      have sd: "sequence_data st' = []"
        using False e by (auto simp: has_record_def started_def)
      have "n = actual_kmer_count st'"
        using assms(3) f pl p1 r False by (simp add: process_file_kmers_def)
      then show ?thesis using est sd z by simp
    qed
  qed
qed

lemma process_file_kmers_nonneg:
  assumes "snd (snd (process_file_kmers h p f)) = Inr n"
  shows "0 \<le> n"
proof (cases f)
  case (Pair ls failure)
  let ?g = "extract_gca_from_filename p"
  let ?st0 = "\<lparr>ps_handler = h, actual_kmer_count = 0, current_reference = None,
                   sequence_data = [], warnings = []\<rparr>"
  obtain st r where pl: "process_lines ?g ls ?st0 = (st, r)"
    by (cases "process_lines ?g ls ?st0")
  have m1: "0 \<le> actual_kmer_count st"
    using process_lines_mono [of ?st0 ?g ls] pl by simp
  have m2: "actual_kmer_count st \<le> actual_kmer_count (fst (ingest_record st))"
    by (rule ingest_record_mono)
  show ?thesis
    using assms Pair pl m1 m2
    by (auto simp: process_file_kmers_def split: option.splits prod.splits if_splits)
qed

lemma process_file_kmers_kmer_size: "kmer_size (fst (process_file_kmers h p f)) = kmer_size h"
proof (cases f)
  case (Pair ls failure)
  let ?g = "extract_gca_from_filename p"
  let ?st0 = "\<lparr>ps_handler = h, actual_kmer_count = 0, current_reference = None,
                   sequence_data = [], warnings = []\<rparr>"
  obtain st r where pl: "process_lines ?g ls ?st0 = (st, r)"
    by (cases "process_lines ?g ls ?st0")
  have m1: "kmer_size (ps_handler st) = kmer_size h"
    using process_lines_kmer_size [of ?g ls ?st0] pl by simp
  have m2: "kmer_size (ps_handler (fst (ingest_record st))) = kmer_size h"
    using ingest_record_kmer_size [of st] m1 by simp
  show ?thesis
    using Pair pl m1 m2
    by (auto simp: process_file_kmers_def split: option.splits prod.splits if_splits)
qed

lemma run_tasks_estimate:
  assumes "1 \<le> kmer_size h" and "kmer_size h0 = kmer_size h"
    and "\<forall>pf \<in> set db. estimate_ext (fst pf) \<longrightarrow> well_formed (snd pf)"
    and "\<forall>r \<in> set (snd (snd (run_tasks h db))). \<exists>n. r = Inr n"
  shows "sum_list (map (\<lambda>pf. estimate_kmers h0 (snd pf)) (filter (\<lambda>pf. estimate_ext (fst pf)) db))
           \<le> loaded_kmers (snd (snd (run_tasks h db)))"
  using assms
proof (induction db arbitrary: h)
  case Nil
  then show ?case by (simp add: loaded_kmers_def)
next
  case (Cons pf rest)
  obtain h1 w1 r1 where p: "process_file_kmers h (fst pf) (snd pf) = (h1, w1, r1)"
    by (cases "process_file_kmers h (fst pf) (snd pf)") auto
  obtain h2 w2 rs where t: "run_tasks h1 rest = (h2, w2, rs)"
    by (cases "run_tasks h1 rest") auto
  have rt: "snd (snd (run_tasks h (pf # rest))) = r1 # rs" using p t by simp
  obtain n where n: "r1 = Inr n" using Cons.prems(4) rt by auto
  have k1: "kmer_size h1 = kmer_size h"
    using process_file_kmers_kmer_size [of h "fst pf" "snd pf"] p by simp
  have a1: "1 \<le> kmer_size h1" and a2: "kmer_size h0 = kmer_size h1"
    using Cons.prems(1,2) k1 by simp_all
  have a3: "\<forall>pf \<in> set rest. estimate_ext (fst pf) \<longrightarrow> well_formed (snd pf)"
    using Cons.prems(3) by simp
  have a4: "\<forall>r \<in> set (snd (snd (run_tasks h1 rest))). \<exists>n. r = Inr n"
    using Cons.prems(4) rt t by simp
  have ih: "sum_list (map (\<lambda>pf. estimate_kmers h0 (snd pf))
        (filter (\<lambda>pf. estimate_ext (fst pf)) rest)) \<le> loaded_kmers rs"
    using Cons.IH [OF a1 a2 a3 a4] t by simp
  have nn: "0 \<le> n" using process_file_kmers_nonneg [of h "fst pf" "snd pf" n] p n by simp
  have l: "loaded_kmers (r1 # rs) = n + loaded_kmers rs" by (simp add: loaded_kmers_def n)
  show ?case
  proof (cases "estimate_ext (fst pf)")
    case True
    then have wf: "well_formed (snd pf)" using Cons.prems(3) by simp
    have "n = estimate_kmers h (snd pf)"
      using process_file_estimate [OF Cons.prems(1) wf, of "fst pf" n] p n by simp
    then have "estimate_kmers h0 (snd pf) = n"
      using estimate_kmers_cong [OF Cons.prems(2), of "snd pf"] by simp
    with True ih l rt show ?thesis by simp
  next
    case False
    with ih l rt nn show ?thesis by simp
  qed
qed

lemma estimate_ext_build_ext: "estimate_ext p \<Longrightarrow> build_ext p"
  by (auto simp: estimate_ext_def build_ext_def)

lemma length_run_tasks: "length (snd (snd (run_tasks h db))) = length db"
proof (induction db arbitrary: h)
  case Nil
  then show ?case by simp
next
  case (Cons pf rest)
  obtain h1 w1 r1 where p: "process_file_kmers h (fst pf) (snd pf) = (h1, w1, r1)"
    by (cases "process_file_kmers h (fst pf) (snd pf)") auto
  from Cons.IH [of h1] p show ?case by (auto split: prod.splits)
qed

lemma mixed_well_formed:
  "list_all (\<lambda>pf. estimate_ext (fst pf) \<longrightarrow> well_formed (snd pf)) mixed_db"
  by code_simp

lemma mixed_results:
  "snd (snd (load_database_multithreaded first_char_hash (handler_init 3 4) mixed_db)) =
     Inr [Inr 6, Inr 3]"
  by code_simp

lemma mixed_estimate: "estimate_total_kmers_in_db (handler_init 3 4) mixed_db = 6"
  by code_simp

text \<open>
  The estimate counts the windows of every run of sequence lines, the build only those of
  a run that follows a header line with a name: for a \<^verbatim>\<open>.fna\<close> file that holds the line
  \<^verbatim>\<open>ACGTACGT\<close> and no header the estimate is 6 and the build ingests nothing.
\<close>

theorem estimate_exceeds_loaded:
  "estimate_total_kmers_in_db (handler_init 3 4) headerless_db = 6 \<and>
   snd (snd (load_database_multithreaded first_char_hash (handler_init 3 4) headerless_db)) =
     Inr [Inr 0] \<and>
   loaded_kmers [Inr 0] = 0"
proof -
  have a: "estimate_total_kmers_in_db (handler_init 3 4) headerless_db = 6" by code_simp
  have b: "snd (snd (load_database_multithreaded first_char_hash (handler_init 3 4)
      headerless_db)) = Inr [Inr 0]" by code_simp
  show ?thesis using a b by (simp add: loaded_kmers_def)
qed

text \<open>
  C7. The estimate is the sum of the per-file estimates over the files whose paths end in
  \<^verbatim>\<open>.fna\<close> or \<^verbatim>\<open>.fna.gz\<close>, and the build runs one task for each file whose path ends in
  \<^verbatim>\<open>.fna\<close>, \<^verbatim>\<open>.fna.gz\<close>, \<^verbatim>\<open>.fasta\<close> or \<^verbatim>\<open>.fasta.gz\<close>. When the k-mer size is
  positive, every file of the first kind is well formed and every task returns, the
  estimate is at most the number of k-mers that the tasks report as ingested.
\<close>

theorem estimate_at_most_loaded:
  assumes "1 \<le> kmer_size h"
    and "\<forall>pf \<in> set db. estimate_ext (fst pf) \<longrightarrow> well_formed (snd pf)"
    and "snd (snd (load_database_multithreaded hs h db)) = Inr rs"
    and "\<forall>r \<in> set rs. \<exists>n. r = Inr n"
  shows "estimate_total_kmers_in_db h db =
           sum_list (map (\<lambda>pf. estimate_kmers h (snd pf))
             (filter (\<lambda>pf. endswith (fst pf) ''.fna'' \<or> endswith (fst pf) ''.fna.gz'') db)) \<and>
         length rs =
           length (filter (\<lambda>pf. endswith (fst pf) ''.fna'' \<or> endswith (fst pf) ''.fna.gz'' \<or>
                      endswith (fst pf) ''.fasta'' \<or> endswith (fst pf) ''.fasta.gz'') db) \<and>
         estimate_total_kmers_in_db h db \<le> loaded_kmers rs"
proof -
  let ?db = "filter (\<lambda>pf. build_ext (fst pf)) db"
  let ?cap = "estimate_total_kmers_in_db h db * factor h"
  obtain h1 where i: "initialize_bloom_filter hs h ?cap = Inr h1"
    and rs: "rs = snd (snd (run_tasks h1 ?db))"
    using assms(3)
    by (auto simp: load_database_multithreaded_def Let_def split: if_splits sum.splits prod.splits)
  have k1: "kmer_size h1 = kmer_size h"
    using i by (auto simp: initialize_bloom_filter_def split: sum.splits)
  have fe: "filter (\<lambda>pf. estimate_ext (fst pf)) ?db = filter (\<lambda>pf. estimate_ext (fst pf)) db"
    by (induction db) (auto simp: estimate_ext_build_ext)
  have a1: "1 \<le> kmer_size h1" using assms(1) k1 by simp
  have a3: "\<forall>pf \<in> set ?db. estimate_ext (fst pf) \<longrightarrow> well_formed (snd pf)"
    using assms(2) by simp
  have a4: "\<forall>r \<in> set (snd (snd (run_tasks h1 ?db))). \<exists>n. r = Inr n"
    using assms(4) rs by simp
  have "estimate_total_kmers_in_db h db \<le> loaded_kmers rs"
    using run_tasks_estimate [OF a1 k1 [symmetric] a3 a4]
    unfolding fe rs [symmetric] estimate_total_kmers_in_db_def .
  moreover have "length rs = length ?db" using rs by (simp add: length_run_tasks)
  ultimately show ?thesis
    by (simp add: estimate_total_kmers_in_db_def estimate_ext_def build_ext_def)
qed

theorem estimate_at_most_loaded_witness:
  "estimate_total_kmers_in_db (handler_init 3 4) mixed_db \<le> loaded_kmers [Inr 6, Inr 3] \<and>
   estimate_total_kmers_in_db (handler_init 3 4) mixed_db = 6 \<and>
   loaded_kmers [Inr 6, Inr 3] = 9"
proof -
  have a: "1 \<le> kmer_size (handler_init 3 4)" by (simp add: handler_init_def)
  have b: "\<forall>pf \<in> set mixed_db. estimate_ext (fst pf) \<longrightarrow> well_formed (snd pf)"
    using mixed_well_formed by (simp add: list_all_iff)
  have c: "\<forall>r \<in> set [Inr 6, Inr 3 :: error + int]. \<exists>n. r = Inr n" by simp
  from estimate_at_most_loaded [OF a b mixed_results c]
  show ?thesis by (simp add: mixed_estimate loaded_kmers_def)
qed

section \<open>The catalogue and the membership set\<close>

text \<open>
  In every state that a session reaches (after the build, after matching, after saving and
  reloading) all bits of every key of the reverse index are set in the membership set, so
  every key probes as present.
\<close>

lemma catalog_keys_probe_present:
  assumes "session_state h" and "kmer \<in> fst ` set (kmer_to_reference h)"
  shows "\<exists>b. bloom h = Some b \<and> set (make_hashes b kmer) \<subseteq> bitarray b \<and>
             bloom_contains b kmer"
  using session_state_inv [OF assms(1)] assms(2)
  by (auto simp: index_inv_def catalog_in_bloom_def bloom_contains_iff)

text \<open>
  C8. Every key of the reverse index is to have been inserted into the membership set, at
  every point after the build. The build inserts the six windows of \<^verbatim>\<open>ACGTACGT\<close> and
  nothing else, and matching never changes the filter; after matching the query \<^verbatim>\<open>TTTT\<close>
  the k-mer \<^verbatim>\<open>TTT\<close>, which is none of the windows, is a key of the reverse index. It came
  from the read of the \<open>defaultdict\<close>, not from an insertion.
\<close>

theorem phantom_key_never_inserted:
  "''TTT'' \<in> fst ` set (kmer_to_reference (fst (match_sequences example_index [''>q'', ''TTTT'']))) \<and>
   ''TTT'' \<notin> set (extract_kmers 3 ''ACGTACGT'') \<and>
   bloom (fst (match_sequences example_index [''>q'', ''TTTT''])) = bloom example_index"
proof -
  have "''TTT'' \<notin> set (extract_kmers 3 ''ACGTACGT'')" by code_simp
  then show ?thesis by (simp add: example_phantom match_sequences_bloom)
qed

section \<open>Header lines without the marker\<close>

lemma start_record_warnings:
  "startswith line ''>'' \<Longrightarrow> warnings (start_record g line st) = warnings st"
  by (simp add: start_record_def extract_reference_name_def split: list.splits)

lemma ingest_record_warnings: "warnings (fst (ingest_record st)) = warnings st"
  by (simp add: ingest_record_def split: prod.splits sum.splits)

lemma process_lines_warnings: "warnings (fst (process_lines g ls st)) = warnings st"
proof (induction ls arbitrary: st)
  case Nil
  then show ?case by simp
next
  case (Cons raw rest)
  show ?case
  proof (cases "startswith (strip raw) ''>''")
    case False
    with Cons.IH [of "st\<lparr>sequence_data := sequence_data st @ [strip raw]\<rparr>"]
    show ?thesis by (simp add: Let_def)
  next
    case True
    show ?thesis
    proof (cases "has_record st")
      case False
      with Cons.IH [of "start_record g (strip raw) st"] True start_record_warnings [OF True]
      show ?thesis by (simp add: Let_def)
    next
      case hr: True
      obtain st' r where ir: "ingest_record st = (st', r)" by (cases "ingest_record st")
      have w: "warnings st' = warnings st" using ingest_record_warnings [of st] ir by simp
      show ?thesis
      proof (cases r)
        case (Some e)
        with True hr ir w show ?thesis by (simp add: Let_def)
      next
        case None
        have "warnings (start_record g (strip raw) (st'\<lparr>sequence_data := []\<rparr>)) = warnings st"
          using start_record_warnings [OF True] w by simp
        with Cons.IH [of "start_record g (strip raw) (st'\<lparr>sequence_data := []\<rparr>)"]
          True hr ir None
        show ?thesis by (simp add: Let_def)
      qed
    qed
  qed
qed

lemma process_file_kmers_warnings: "fst (snd (process_file_kmers h p f)) = []"
proof (cases f)
  case (Pair ls failure)
  let ?st0 = "\<lparr>ps_handler = h, actual_kmer_count = 0, current_reference = None,
                   sequence_data = [], warnings = []\<rparr>"
  obtain st r where pl: "process_lines (extract_gca_from_filename p) ls ?st0 = (st, r)"
    by (cases "process_lines (extract_gca_from_filename p) ls ?st0")
  have w1: "warnings st = []"
    using process_lines_warnings [of "extract_gca_from_filename p" ls ?st0] pl by simp
  have w2: "warnings (fst (ingest_record st)) = []"
    using ingest_record_warnings [of st] w1 by simp
  show ?thesis
    using Pair pl w1 w2
    by (auto simp: process_file_kmers_def split: option.splits prod.splits)
qed

lemma run_tasks_warnings: "fst (snd (run_tasks h db)) = []"
proof (induction db arbitrary: h)
  case Nil
  then show ?case by simp
next
  case (Cons pf rest)
  obtain h1 w1 r1 where p: "process_file_kmers h (fst pf) (snd pf) = (h1, w1, r1)"
    by (cases "process_file_kmers h (fst pf) (snd pf)") auto
  have "w1 = []" using process_file_kmers_warnings [of h "fst pf" "snd pf"] p by simp
  with Cons.IH [of h1] p show ?case by (auto split: prod.splits)
qed

lemma load_database_warnings: "fst (snd (load_database_multithreaded hs h db)) = []"
  using run_tasks_warnings
  by (auto simp: load_database_multithreaded_def Let_def split: sum.splits prod.splits)
    (metis fst_conv snd_conv)

text \<open>
  \<open>_process_file_kmers\<close> calls \<open>_extract_reference_name\<close> only under
  \<open>line.startswith('>')\<close>. A record whose header line has lost the marker is therefore
  not a record to the build: in the file with the lines \<^verbatim>\<open>>ref1\<close>, \<^verbatim>\<open>ACGT\<close>, \<^verbatim>\<open>ref2\<close>,
  \<^verbatim>\<open>TTTT\<close> no warning is printed, nothing is counted under \<^verbatim>\<open>Unknown\<close>, and the three
  lines after the header make up the sequence of \<^verbatim>\<open>ref1\<close>, which has 10 windows.
\<close>

theorem malformed_header_joins_previous:
  "fst (snd (load_database_multithreaded first_char_hash (handler_init 3 4) malformed_db)) = [] \<and>
   reference_kmer_count
     (fst (load_database_multithreaded first_char_hash (handler_init 3 4) malformed_db))
     ''Unknown'' = None \<and>
   reference_kmer_count
     (fst (load_database_multithreaded first_char_hash (handler_init 3 4) malformed_db))
     ''ref1'' = Some 10"
  by code_simp

text \<open>
  C9. \<open>_extract_reference_name\<close> answers a line without the marker with a warning and
  the name \<^verbatim>\<open>Unknown\<close>, and a line with the marker without a warning. The build calls
  it only on lines with the marker: a line without it is appended to the sequence of the
  record being read, and the build prints no warning, for every database.
\<close>

theorem unknown_only_outside_build:
  "(\<forall>line. \<not> startswith line ''>'' \<longrightarrow>
      extract_reference_name line =
        (''Unknown'', [''Warning: Header line format is incorrect: '' @ line])) \<and>
   (\<forall>line. startswith line ''>'' \<longrightarrow> snd (extract_reference_name line) = []) \<and>
   (\<forall>raw. \<not> startswith (strip raw) ''>'' \<longrightarrow>
      process_lines g (raw # rest) st =
        process_lines g rest (st\<lparr>sequence_data := sequence_data st @ [strip raw]\<rparr>)) \<and>
   fst (snd (load_database_multithreaded hs h db)) = []"
  by (simp add: extract_reference_name_def load_database_warnings Let_def split: list.splits)

theorem unknown_only_outside_build_witness:
  "extract_reference_name ''ref2'' =
     (''Unknown'', [''Warning: Header line format is incorrect: ref2'']) \<and>
   snd (extract_reference_name ''>ref1'') = []"
proof -
  have a: "\<not> startswith ''ref2'' ''>''" by (simp add: startswith_def)
  have b: "startswith ''>ref1'' ''>''" by (simp add: startswith_def)
  from unknown_only_outside_build
    [where hs = first_char_hash and h = "handler_init 3 4" and db = malformed_db] a b
  show ?thesis by simp
qed

section \<open>Matched k-mers\<close>

text \<open>
  C10. In every state that a session reaches, where the membership set reports every
  catalogued k-mer as present, the number of matched k-mers of every row written is
  \<open>|Q \<inter> R|\<close>, with \<open>Q\<close> the set of k-mers of the query and \<open>R\<close> the set of k-mers
  catalogued for the row's reference: the numerator of both scores.
\<close>

theorem matched_kmers_is_intersection:
  assumes "session_state h" and "snd (match_sequence h name s) = Inr rows" and "r \<in> set rows"
  shows "matched_kmers r =
         card (set (sm_extract_kmers (kmer_size h) s) \<inter>
               set (get_reference_kmers h (reference r)))"
proof -
  let ?q = "py_set (sm_extract_kmers (kmer_size h) s)"
  let ?d = "kmer_to_reference h"
  have inv: "distinct (map fst ?d)" "catalog_in_bloom h"
    using session_state_inv [OF assms(1)] by (simp_all add: index_inv_def)
  obtain b ref matched where b: "bloom h = Some b"
    and r: "r = score_row h name ?q (ref, matched)"
    and d: "distinct matched"
    and s: "set matched = {k \<in> set (sm_extract_kmers (kmer_size h) s).
               bloom_contains b k \<and> ref \<in> set (dd_view ?d k)}"
    using match_sequence_row [OF assms(2,3)] by blast
  have R: "set (get_reference_kmers h ref) = {k. ref \<in> set (dd_view ?d k)}"
    by (rule get_reference_kmers_set [OF inv(1)])
  have pres: "\<And>k. ref \<in> set (dd_view ?d k) \<Longrightarrow> bloom_contains b k"
  proof -
    fix k assume "ref \<in> set (dd_view ?d k)"
    then have "dd_view ?d k \<noteq> []" by auto
    then have "k \<in> fst ` set ?d" using dd_view_not_key by blast
    then show "bloom_contains b k" using inv(2) b by (auto simp: catalog_in_bloom_def)
  qed
  have "set matched = set (sm_extract_kmers (kmer_size h) s) \<inter> set (get_reference_kmers h ref)"
    using s R pres by auto
  then have "length matched =
      card (set (sm_extract_kmers (kmer_size h) s) \<inter> set (get_reference_kmers h ref))"
    using d distinct_card by fastforce
  then show ?thesis using r by simp
qed

theorem matched_kmers_is_intersection_witness:
  "card (set (sm_extract_kmers 3 ''ACGTACGT'') \<inter>
         set (get_reference_kmers example_index ''ref1'')) = 4"
proof -
  have "example_row \<in> set [example_row]" by simp
  from matched_kmers_is_intersection [OF example_session example_match this]
  show ?thesis by (simp add: example_row_def example_kmer_size)
qed

end
